theory Spec2Isabelle
  imports Main "HOL-Library.Word"
begin

section \<open>The memory of a program that uses SingleLinkedList\<close>

text \<open>
  The header single-linked-list.h defines a class template whose objects hold a sentinel
  \<open>Node head_\<close> and a counter \<open>size_t size_\<close>; every other node is created with
  \<open>new\<close> and reached through \<open>Node*\<close> links. Iterators keep a \<open>Node*\<close> that
  may point to a node made by \<open>new\<close> or to the member \<open>head_\<close> of a list, so the
  sentinel has to be addressable like any other node.

  A pointer is a 64-bit word, the null pointer is \<open>0\<close>, and \<open>size_t\<close> is a 64-bit
  word too: \<open>++size_\<close> and \<open>--size_\<close> wrap around. The memory has two parts:
  \<^item> \<open>nodes\<close>: the live \<open>Node\<close> objects by address, the member \<open>head_\<close> of every
    live list among them, at the address of the list object itself;
  \<^item> \<open>sizes\<close>: the member \<open>size_\<close> of every live list object, by the address of the
    list object.
  The field \<open>value\<close> of the source is called \<open>val\<close> here.
\<close>

type_synonym addr = "64 word"
type_synonym size_t = "64 word"

record 'a Node =
  val :: 'a
  next_node :: addr

record 'a state =
  nodes :: "addr \<Rightarrow> 'a Node option"
  sizes :: "addr \<Rightarrow> size_t option"

text \<open>
  What a call does: it returns a result in a new memory, it lets an exception escape
  (only \<open>std::bad_alloc\<close> from \<open>new\<close> arises: element values are copied as values), or
  its behaviour is undefined (a read or write through a null pointer or through a pointer
  to an object that is not alive). A loop that does not end has no outcome at all: the
  functions with a loop return an \<open>outcome option\<close>.
\<close>

datatype ('r, 'a) outcome = Return 'r "'a state" | Throw "'a state" | UB

text \<open>
  \<open>operator new\<close> is a parameter of the model: given the memory it either fails or
  chooses an address. Any allocator is admitted that never hands out the null pointer or
  the address of a live node.
\<close>

type_synonym 'a allocator = "'a state \<Rightarrow> addr option"

definition valid_alloc :: "'a allocator \<Rightarrow> bool" where
  "valid_alloc alloc \<longleftrightarrow> (\<forall>s a. alloc s = Some a \<longrightarrow> a \<noteq> 0 \<and> nodes s a = None)"

text \<open>A concrete allocator: the first free address among \<open>1, ..., n\<close>.\<close>

definition first_fit :: "nat \<Rightarrow> 'a allocator" where
  "first_fit n s = List.find (\<lambda>a. a \<noteq> 0 \<and> nodes s a = None) (map of_nat [1..<Suc n])"

text \<open>Access through a \<open>Node*\<close>.\<close>

definition load :: "'a state \<Rightarrow> addr \<Rightarrow> 'a Node option" where
  "load s p = (if p = 0 then None else nodes s p)"

text \<open>\<open>p->next_node = q\<close>\<close>

definition store_next :: "'a state \<Rightarrow> addr \<Rightarrow> addr \<Rightarrow> 'a state option" where
  "store_next s p q =
     (case load s p of
        None \<Rightarrow> None
      | Some n \<Rightarrow> Some (s\<lparr>nodes := (nodes s)(p \<mapsto> n\<lparr>next_node := q\<rparr>)\<rparr>))"

text \<open>\<open>new Node(v, nxt)\<close>: \<open>None\<close> when the allocation fails.\<close>

definition new_Node :: "'a allocator \<Rightarrow> 'a state \<Rightarrow> 'a \<Rightarrow> addr \<Rightarrow> (addr \<times> 'a state) option" where
  "new_Node alloc s v nxt =
     (case alloc s of
        None \<Rightarrow> None
      | Some a \<Rightarrow> Some (a, s\<lparr>nodes := (nodes s)(a \<mapsto> \<lparr>val = v, next_node = nxt\<rparr>)\<rparr>))"

text \<open>\<open>delete p\<close>: nothing for the null pointer, undefined for a dead object.\<close>

definition delete_Node :: "'a state \<Rightarrow> addr \<Rightarrow> 'a state option" where
  "delete_Node s p =
     (if p = 0 then Some s
      else case nodes s p of
             None \<Rightarrow> None
           | Some n \<Rightarrow> Some (s\<lparr>nodes := (nodes s)(p := None)\<rparr>))"

text \<open>\<open>size_ = n\<close> in the list object at \<open>this\<close>.\<close>

definition store_size :: "'a state \<Rightarrow> addr \<Rightarrow> size_t \<Rightarrow> 'a state option" where
  "store_size s this n =
     (case sizes s this of
        None \<Rightarrow> None
      | Some m \<Rightarrow> Some (s\<lparr>sizes := (sizes s)(this \<mapsto> n)\<rparr>))"

section \<open>BasicIterator\<close>

text \<open>
  \<open>Iterator\<close> and \<open>ConstIterator\<close> differ in the type of the reference they give
  out only; both hold the one field \<open>node_\<close>, called
  \<open>node\<close> here (a name cannot end with an underscore). For the same reason the members
  \<open>head_\<close> and \<open>size_\<close> appear as \<open>nodes s this\<close> and \<open>sizes s this\<close>, and
  \<open>begin\<close> and \<open>end\<close>, which are keywords, as \<open>list_begin\<close> and \<open>list_end\<close>.
\<close>

record BasicIterator =
  node :: addr

text \<open>\<open>BasicIterator() = default\<close> with the member initialiser \<open>node_ = nullptr\<close>.\<close>

definition BasicIterator_default :: BasicIterator where
  "BasicIterator_default = \<lparr>node = 0\<rparr>"

text \<open>\<open>operator==\<close> and \<open>operator!=\<close> of iterators\<close>

definition it_eq :: "BasicIterator \<Rightarrow> BasicIterator \<Rightarrow> bool" where
  "it_eq lhs rhs \<longleftrightarrow> node lhs = node rhs"

definition it_ne :: "BasicIterator \<Rightarrow> BasicIterator \<Rightarrow> bool" where
  "it_ne lhs rhs \<longleftrightarrow> node lhs \<noteq> node rhs"

text \<open>\<open>operator++\<close>: \<open>node_ = (*node_).next_node\<close>\<close>

definition it_incr :: "'a state \<Rightarrow> BasicIterator \<Rightarrow> BasicIterator option" where
  "it_incr s it =
     (case load s (node it) of
        None \<Rightarrow> None
      | Some n \<Rightarrow> Some (it\<lparr>node := next_node n\<rparr>))"

text \<open>\<open>operator*\<close>: \<open>node_->value\<close>\<close>

definition it_deref :: "'a state \<Rightarrow> BasicIterator \<Rightarrow> 'a option" where
  "it_deref s it =
     (case load s (node it) of
        None \<Rightarrow> None
      | Some n \<Rightarrow> Some (val n))"

section \<open>SingleLinkedList\<close>

text \<open>
  A list object is named by its address \<open>this\<close>; \<open>&head_\<close> is that address. The
  default member initialisers make the sentinel \<open>Node()\<close> (its value is \<open>Type{}\<close>,
  the parameter \<open>T0\<close>; its link is null) and \<open>size_ = 0\<close>: this is all the default
  constructor does. The storage of the object is provided by whoever declares it.
\<close>

definition SingleLinkedList_default :: "'a \<Rightarrow> 'a state \<Rightarrow> addr \<Rightarrow> 'a state" where
  "SingleLinkedList_default T0 s this =
     s\<lparr>nodes := (nodes s)(this \<mapsto> \<lparr>val = T0, next_node = 0\<rparr>),
       sizes := (sizes s)(this \<mapsto> 0)\<rparr>"

text \<open>The storage of a list object goes away when its lifetime ends.\<close>

definition release :: "'a state \<Rightarrow> addr \<Rightarrow> 'a state" where
  "release s this = s\<lparr>nodes := (nodes s)(this := None), sizes := (sizes s)(this := None)\<rparr>"

definition list_begin :: "'a state \<Rightarrow> addr \<Rightarrow> BasicIterator option" where
  "list_begin s this =
     (case load s this of
        None \<Rightarrow> None
      | Some head \<Rightarrow> Some \<lparr>node = next_node head\<rparr>)"

definition list_end :: "addr \<Rightarrow> BasicIterator" where
  "list_end this = \<lparr>node = 0\<rparr>"

definition before_begin :: "addr \<Rightarrow> BasicIterator" where
  "before_begin this = \<lparr>node = this\<rparr>"

definition GetSize :: "'a state \<Rightarrow> addr \<Rightarrow> size_t option" where
  "GetSize s this = sizes s this"

definition IsEmpty :: "'a state \<Rightarrow> addr \<Rightarrow> bool option" where
  "IsEmpty s this =
     (case load s this of
        None \<Rightarrow> None
      | Some head \<Rightarrow> Some (if next_node head = 0 then True else False))"

text \<open>
  \<open>Create\<close> is a template over the iterator type \<open>It\<close> of its range. The three
  operations it uses on \<open>It\<close> are parameters: \<open>ne\<close> is \<open>!=\<close>, \<open>get\<close> is \<open>*\<close> and
  \<open>inc\<close> is \<open>++\<close>. The loop carries \<open>prev\<close>, \<open>it\<close> and the memory.
\<close>

partial_function (option) Create_loop ::
  "'a allocator \<Rightarrow> ('it \<Rightarrow> 'it \<Rightarrow> bool) \<Rightarrow> ('a state \<Rightarrow> 'it \<Rightarrow> 'a option) \<Rightarrow>
   ('a state \<Rightarrow> 'it \<Rightarrow> 'it option) \<Rightarrow> addr \<Rightarrow> 'a state \<Rightarrow> addr \<Rightarrow> 'it \<Rightarrow> 'it \<Rightarrow>
   (unit, 'a) outcome option" where
  "Create_loop alloc ne get inc this s prev it range_e =
     (if \<not> ne it range_e then Some (Return () s)
      else case get s it of
        None \<Rightarrow> Some UB
      | Some v \<Rightarrow>
         (case new_Node alloc s v 0 of
            None \<Rightarrow> Some (Throw s)
          | Some (a, s1) \<Rightarrow>
             (case store_next s1 prev a of
                None \<Rightarrow> Some UB
              | Some s2 \<Rightarrow>
                 (case sizes s2 this of
                    None \<Rightarrow> Some UB
                  | Some n \<Rightarrow>
                     (case store_size s2 this (n + 1) of
                        None \<Rightarrow> Some UB
                      | Some s3 \<Rightarrow>
                         (case inc s3 it of
                            None \<Rightarrow> Some UB
                          | Some it' \<Rightarrow>
                              Create_loop alloc ne get inc this s3 a it' range_e))))))"

definition Create ::
  "'a allocator \<Rightarrow> ('it \<Rightarrow> 'it \<Rightarrow> bool) \<Rightarrow> ('a state \<Rightarrow> 'it \<Rightarrow> 'a option) \<Rightarrow>
   ('a state \<Rightarrow> 'it \<Rightarrow> 'it option) \<Rightarrow> 'a state \<Rightarrow> addr \<Rightarrow> 'it \<Rightarrow> 'it \<Rightarrow>
   (unit, 'a) outcome option" where
  "Create alloc ne get inc s this range_b range_e =
     Create_loop alloc ne get inc this s this range_b range_e"

text \<open>
  The two ranges the constructors pass. An \<open>initializer_list\<close> is an array that no list
  operation writes: its iterators are positions in the array \<open>values\<close>. For a copy the
  range is made of \<open>ConstIterator\<close>s of the other list.
\<close>

definition array_get :: "'a list \<Rightarrow> 'a state \<Rightarrow> nat \<Rightarrow> 'a option" where
  "array_get values s i = (if i < length values then Some (values ! i) else None)"

definition array_inc :: "'a state \<Rightarrow> nat \<Rightarrow> nat option" where
  "array_inc s i = Some (i + 1)"

definition PushFront :: "'a allocator \<Rightarrow> 'a state \<Rightarrow> addr \<Rightarrow> 'a \<Rightarrow> (unit, 'a) outcome" where
  "PushFront alloc s this v =
     (case load s this of
        None \<Rightarrow> UB
      | Some head \<Rightarrow>
         (case new_Node alloc s v (next_node head) of
            None \<Rightarrow> Throw s
          | Some (a, s1) \<Rightarrow>
             (case store_next s1 this a of
                None \<Rightarrow> UB
              | Some s2 \<Rightarrow>
                 (case sizes s2 this of
                    None \<Rightarrow> UB
                  | Some n \<Rightarrow>
                     (case store_size s2 this (n + 1) of
                        None \<Rightarrow> UB
                      | Some s3 \<Rightarrow> Return () s3)))))"

partial_function (option) Clear_loop :: "'a state \<Rightarrow> addr \<Rightarrow> (unit, 'a) outcome option" where
  "Clear_loop s this =
     (case load s this of
        None \<Rightarrow> Some UB
      | Some head \<Rightarrow>
         if next_node head = 0 then Some (Return () s)
         else
           (case load s (next_node head) of
              None \<Rightarrow> Some UB
            | Some first \<Rightarrow>
               (case delete_Node s (next_node head) of
                  None \<Rightarrow> Some UB
                | Some s1 \<Rightarrow>
                   (case store_next s1 this (next_node first) of
                      None \<Rightarrow> Some UB
                    | Some s2 \<Rightarrow> Clear_loop s2 this))))"

definition Clear :: "'a state \<Rightarrow> addr \<Rightarrow> (unit, 'a) outcome option" where
  "Clear s this =
     (case Clear_loop s this of
        None \<Rightarrow> None
      | Some (Return u s1) \<Rightarrow>
         (case store_size s1 this 0 of
            None \<Rightarrow> Some UB
          | Some s2 \<Rightarrow> Some (Return () s2))
      | Some (Throw s1) \<Rightarrow> Some (Throw s1)
      | Some UB \<Rightarrow> Some UB)"

definition InsertAfter ::
  "'a allocator \<Rightarrow> 'a state \<Rightarrow> addr \<Rightarrow> BasicIterator \<Rightarrow> 'a \<Rightarrow> (BasicIterator, 'a) outcome" where
  "InsertAfter alloc s this pos v =
     (case load s (node pos) of
        None \<Rightarrow> UB
      | Some n \<Rightarrow>
         (case new_Node alloc s v (next_node n) of
            None \<Rightarrow> Throw s
          | Some (inserted, s1) \<Rightarrow>
             (case store_next s1 (node pos) inserted of
                None \<Rightarrow> UB
              | Some s2 \<Rightarrow>
                 (case sizes s2 this of
                    None \<Rightarrow> UB
                  | Some m \<Rightarrow>
                     (case store_size s2 this (m + 1) of
                        None \<Rightarrow> UB
                      | Some s3 \<Rightarrow> Return \<lparr>node = inserted\<rparr> s3)))))"

definition EraseAfter :: "'a state \<Rightarrow> addr \<Rightarrow> BasicIterator \<Rightarrow> (BasicIterator, 'a) outcome" where
  "EraseAfter s this pos =
     (case load s (node pos) of
        None \<Rightarrow> UB
      | Some n \<Rightarrow>
         (let eraze_me = next_node n in
          case load s eraze_me of
            None \<Rightarrow> UB
          | Some e \<Rightarrow>
             (let next_to_erazed = next_node e in
              case store_next s (node pos) next_to_erazed of
                None \<Rightarrow> UB
              | Some s1 \<Rightarrow>
                 (case delete_Node s1 eraze_me of
                    None \<Rightarrow> UB
                  | Some s2 \<Rightarrow>
                     (case sizes s2 this of
                        None \<Rightarrow> UB
                      | Some m \<Rightarrow>
                         (case store_size s2 this (m - 1) of
                            None \<Rightarrow> UB
                          | Some s3 \<Rightarrow> Return \<lparr>node = next_to_erazed\<rparr> s3))))))"

definition PopFront :: "'a state \<Rightarrow> addr \<Rightarrow> (unit, 'a) outcome" where
  "PopFront s this =
     (case EraseAfter s this (before_begin this) of
        Return it s1 \<Rightarrow> Return () s1
      | Throw s1 \<Rightarrow> Throw s1
      | UB \<Rightarrow> UB)"

definition swap :: "'a state \<Rightarrow> addr \<Rightarrow> addr \<Rightarrow> (unit, 'a) outcome" where
  "swap s this other =
     (case load s this of
        None \<Rightarrow> UB
      | Some head \<Rightarrow>
         (let tmp_p = next_node head in
          case sizes s this of
            None \<Rightarrow> UB
          | Some tmp_s \<Rightarrow>
             (case load s other of
                None \<Rightarrow> UB
              | Some ohd \<Rightarrow>
                 (case store_next s this (next_node ohd) of
                    None \<Rightarrow> UB
                  | Some s1 \<Rightarrow>
                     (case sizes s1 other of
                        None \<Rightarrow> UB
                      | Some osz \<Rightarrow>
                         (case store_size s1 this osz of
                            None \<Rightarrow> UB
                          | Some s2 \<Rightarrow>
                             (case store_next s2 other tmp_p of
                                None \<Rightarrow> UB
                              | Some s3 \<Rightarrow>
                                 (case store_size s3 other tmp_s of
                                    None \<Rightarrow> UB
                                  | Some s4 \<Rightarrow> Return () s4))))))))"

text \<open>
  The destructor runs \<open>Clear\<close>; leaving the scope of a local list runs the destructor and
  gives its storage back.
\<close>

definition destructor :: "'a state \<Rightarrow> addr \<Rightarrow> (unit, 'a) outcome option" where
  "destructor s this = Clear s this"

definition leave_scope :: "'a state \<Rightarrow> addr \<Rightarrow> (unit, 'a) outcome option" where
  "leave_scope s this =
     (case destructor s this of
        None \<Rightarrow> None
      | Some (Return u s1) \<Rightarrow> Some (Return () (release s1 this))
      | Some (Throw s1) \<Rightarrow> Some (Throw s1)
      | Some UB \<Rightarrow> Some UB)"

text \<open>
  Both constructors that take elements build the chain in a local list \<open>tmp\<close> and swap
  it in. \<open>tmp\<close> is the address of that local: automatic storage, chosen by the
  environment. The \<open>assert\<close> at their start reads the members the initialisers have just
  set; a failing \<open>assert\<close> aborts the program, which the model counts as \<open>UB\<close>. When \<open>Create\<close> throws, \<open>tmp\<close> is destroyed while the stack unwinds, and the
  object under construction never comes to life: its storage goes away too.
\<close>

definition construct_from ::
  "'a allocator \<Rightarrow> ('it \<Rightarrow> 'it \<Rightarrow> bool) \<Rightarrow> ('a state \<Rightarrow> 'it \<Rightarrow> 'a option) \<Rightarrow>
   ('a state \<Rightarrow> 'it \<Rightarrow> 'it option) \<Rightarrow> 'a \<Rightarrow> addr \<Rightarrow> 'a state \<Rightarrow> addr \<Rightarrow> 'it \<Rightarrow> 'it \<Rightarrow>
   (unit, 'a) outcome option" where
  "construct_from alloc ne get inc T0 tmp s this range_b range_e =
     (let s0 = SingleLinkedList_default T0 s this in
      if \<not> (sizes s0 this = Some 0 \<and> map_option next_node (load s0 this) = Some 0) then Some UB
      else
        (let s1 = SingleLinkedList_default T0 s0 tmp in
         case Create alloc ne get inc s1 tmp range_b range_e of
           None \<Rightarrow> None
         | Some UB \<Rightarrow> Some UB
         | Some (Throw s2) \<Rightarrow>
            (case leave_scope s2 tmp of
               None \<Rightarrow> None
             | Some (Return u s3) \<Rightarrow> Some (Throw (release s3 this))
             | Some (Throw s3) \<Rightarrow> Some UB
             | Some UB \<Rightarrow> Some UB)
         | Some (Return u s2) \<Rightarrow>
            (case swap s2 this tmp of
               UB \<Rightarrow> Some UB
             | Throw s3 \<Rightarrow> Some UB
             | Return u s3 \<Rightarrow> leave_scope s3 tmp)))"

text \<open>\<open>SingleLinkedList(std::initializer_list<Type> values)\<close>\<close>

definition SingleLinkedList_values ::
  "'a allocator \<Rightarrow> 'a \<Rightarrow> addr \<Rightarrow> 'a state \<Rightarrow> addr \<Rightarrow> 'a list \<Rightarrow> (unit, 'a) outcome option" where
  "SingleLinkedList_values alloc T0 tmp s this values =
     construct_from alloc (\<lambda>i j. i \<noteq> j) (array_get values) array_inc T0 tmp s this
       0 (length values)"

text \<open>\<open>SingleLinkedList(const SingleLinkedList& other)\<close>\<close>

definition SingleLinkedList_copy ::
  "'a allocator \<Rightarrow> 'a \<Rightarrow> addr \<Rightarrow> 'a state \<Rightarrow> addr \<Rightarrow> addr \<Rightarrow> (unit, 'a) outcome option" where
  "SingleLinkedList_copy alloc T0 tmp s this other =
     (case list_begin (SingleLinkedList_default T0 (SingleLinkedList_default T0 s this) tmp) other of
        None \<Rightarrow> Some UB
      | Some range_b \<Rightarrow>
          construct_from alloc it_ne it_deref it_incr T0 tmp s this range_b (list_end other))"

text \<open>
  \<open>operator=\<close>: the local \<open>copy_rhs\<close> (at the address \<open>cp\<close>) is copy-constructed with
  its own local \<open>tmp\<close>, swapped with \<open>*this\<close> and destroyed at the end of the scope.
\<close>

definition operator_assign ::
  "'a allocator \<Rightarrow> 'a \<Rightarrow> addr \<Rightarrow> addr \<Rightarrow> 'a state \<Rightarrow> addr \<Rightarrow> addr \<Rightarrow> (unit, 'a) outcome option" where
  "operator_assign alloc T0 cp tmp s this rhs =
     (case SingleLinkedList_copy alloc T0 tmp s cp rhs of
        None \<Rightarrow> None
      | Some UB \<Rightarrow> Some UB
      | Some (Throw s1) \<Rightarrow> Some (Throw s1)
      | Some (Return u s1) \<Rightarrow>
         (case swap s1 this cp of
            UB \<Rightarrow> Some UB
          | Throw s2 \<Rightarrow> Some UB
          | Return u s2 \<Rightarrow> leave_scope s2 cp))"

section \<open>Comparison of lists\<close>

text \<open>
  The operators call \<open>std::equal\<close> (the overload with three iterators) and
  \<open>std::lexicographical_compare\<close> of the standard library. Their loops, as the C++
  standard gives them:
  \<^verbatim>\<open>for (; first1 != last1; ++first1, ++first2)
    if (!(*first1 == *first2)) return false;
  return true;\<close>
  and
  \<^verbatim>\<open>for (; first1 != last1 && first2 != last2; ++first1, ++first2) {
    if (*first1 < *first2) return true;
    if (*first2 < *first1) return false;
  }
  return first1 == last1 && first2 != last2;\<close>
  They only read the memory, so their result is \<open>Some (Some b)\<close> for the value \<open>b\<close>,
  \<open>Some None\<close> for undefined behaviour, \<open>None\<close> for a loop that does not end.
\<close>

partial_function (option) std_equal ::
  "'a state \<Rightarrow> BasicIterator \<Rightarrow> BasicIterator \<Rightarrow> BasicIterator \<Rightarrow> bool option option" where
  "std_equal s first1 last1 first2 =
     (if \<not> it_ne first1 last1 then Some (Some True)
      else case it_deref s first1 of
        None \<Rightarrow> Some None
      | Some x \<Rightarrow>
         (case it_deref s first2 of
            None \<Rightarrow> Some None
          | Some y \<Rightarrow>
             if \<not> (x = y) then Some (Some False)
             else
               (case it_incr s first1 of
                  None \<Rightarrow> Some None
                | Some f1 \<Rightarrow>
                   (case it_incr s first2 of
                      None \<Rightarrow> Some None
                    | Some f2 \<Rightarrow> std_equal s f1 last1 f2))))"

partial_function (option) std_lexicographical_compare ::
  "'a::ord state \<Rightarrow> BasicIterator \<Rightarrow> BasicIterator \<Rightarrow> BasicIterator \<Rightarrow> BasicIterator \<Rightarrow>
   bool option option" where
  "std_lexicographical_compare s first1 last1 first2 last2 =
     (if it_ne first1 last1 \<and> it_ne first2 last2 then
        (case it_deref s first1 of
           None \<Rightarrow> Some None
         | Some x \<Rightarrow>
            (case it_deref s first2 of
               None \<Rightarrow> Some None
             | Some y \<Rightarrow>
                if x < y then Some (Some True)
                else if y < x then Some (Some False)
                else
                  (case it_incr s first1 of
                     None \<Rightarrow> Some None
                   | Some f1 \<Rightarrow>
                      (case it_incr s first2 of
                         None \<Rightarrow> Some None
                       | Some f2 \<Rightarrow> std_lexicographical_compare s f1 last1 f2 last2))))
      else Some (Some (it_eq first1 last1 \<and> it_ne first2 last2)))"

definition operator_eq :: "'a state \<Rightarrow> addr \<Rightarrow> addr \<Rightarrow> bool option option" where
  "operator_eq s lhs rhs =
     (case list_begin s lhs of
        None \<Rightarrow> Some None
      | Some b1 \<Rightarrow>
         (case list_begin s rhs of
            None \<Rightarrow> Some None
          | Some b2 \<Rightarrow> std_equal s b1 (list_end lhs) b2))"

definition operator_ne :: "'a state \<Rightarrow> addr \<Rightarrow> addr \<Rightarrow> bool option option" where
  "operator_ne s lhs rhs = map_option (map_option Not) (operator_eq s lhs rhs)"

definition operator_lt :: "'a::ord state \<Rightarrow> addr \<Rightarrow> addr \<Rightarrow> bool option option" where
  "operator_lt s lhs rhs =
     (case list_begin s lhs of
        None \<Rightarrow> Some None
      | Some b1 \<Rightarrow>
         (case list_begin s rhs of
            None \<Rightarrow> Some None
          | Some b2 \<Rightarrow> std_lexicographical_compare s b1 (list_end lhs) b2 (list_end rhs)))"

definition operator_le :: "'a::ord state \<Rightarrow> addr \<Rightarrow> addr \<Rightarrow> bool option option" where
  "operator_le s lhs rhs = map_option (map_option Not) (operator_lt s rhs lhs)"

definition operator_gt :: "'a::ord state \<Rightarrow> addr \<Rightarrow> addr \<Rightarrow> bool option option" where
  "operator_gt s lhs rhs = operator_lt s rhs lhs"

definition operator_ge :: "'a::ord state \<Rightarrow> addr \<Rightarrow> addr \<Rightarrow> bool option option" where
  "operator_ge s lhs rhs = map_option (map_option Not) (operator_gt s rhs lhs)"

section \<open>Reading a list\<close>

text \<open>
  The loop every client writes:
  \<^verbatim>\<open>for (auto it = l.begin(); it != l.end(); ++it) out.push_back(*it);\<close>
\<close>

partial_function (option) traverse ::
  "'a state \<Rightarrow> BasicIterator \<Rightarrow> BasicIterator \<Rightarrow> 'a list \<Rightarrow> 'a list option option" where
  "traverse s it range_e out =
     (if \<not> it_ne it range_e then Some (Some out)
      else case it_deref s it of
        None \<Rightarrow> Some None
      | Some v \<Rightarrow>
         (case it_incr s it of
            None \<Rightarrow> Some None
          | Some it' \<Rightarrow> traverse s it' range_e (out @ [v])))"

definition items :: "'a state \<Rightarrow> addr \<Rightarrow> 'a list option option" where
  "items s this =
     (case list_begin s this of
        None \<Rightarrow> Some None
      | Some b \<Rightarrow> traverse s b (list_end this) [])"

section \<open>The shape of a list in memory\<close>

text \<open>
  \<open>path h p as q\<close>: following the links from \<open>p\<close> visits exactly the live, non-null
  nodes \<open>as\<close>, in this order, and arrives at \<open>q\<close>.
\<close>

primrec path :: "(addr \<Rightarrow> 'a Node option) \<Rightarrow> addr \<Rightarrow> addr list \<Rightarrow> addr \<Rightarrow> bool" where
  "path h p [] q \<longleftrightarrow> p = q"
| "path h p (a # as) q \<longleftrightarrow>
     p = a \<and> a \<noteq> 0 \<and> (case h a of None \<Rightarrow> False | Some n \<Rightarrow> path h (next_node n) as q)"

text \<open>
  \<open>list_at s this as\<close>: the list object at \<open>this\<close> is alive, the real nodes reachable
  from its sentinel are \<open>as\<close>, the link of the last one is null, and \<open>size_\<close> is their
  number. \<open>vals s as\<close> are the values these nodes hold.
\<close>

definition list_at :: "'a state \<Rightarrow> addr \<Rightarrow> addr list \<Rightarrow> bool" where
  "list_at s this as \<longleftrightarrow>
     path (nodes s) this (this # as) 0 \<and> map_option unat (sizes s this) = Some (length as)"

definition vals :: "'a state \<Rightarrow> addr list \<Rightarrow> 'a list" where
  "vals s as = map (\<lambda>a. val (the (nodes s a))) as"

section \<open>Sequences of calls\<close>

text \<open>
  \<open>PushFront\<close> called once for every value of \<open>vs\<close>, in this order; the first call
  that throws ends the sequence.
\<close>

fun PushFront_seq :: "'a allocator \<Rightarrow> 'a state \<Rightarrow> addr \<Rightarrow> 'a list \<Rightarrow> (unit, 'a) outcome" where
  "PushFront_seq alloc s this [] = Return () s"
| "PushFront_seq alloc s this (v # vs) =
     (case PushFront alloc s this v of
        Return u s' \<Rightarrow> PushFront_seq alloc s' this vs
      | Throw s' \<Rightarrow> Throw s'
      | UB \<Rightarrow> UB)"

text \<open>
  What the three-iterator \<open>std::equal\<close> computes on two element sequences: it walks the
  first one; running off the end of the second one is undefined.
\<close>

fun equal_3 :: "'a list \<Rightarrow> 'a list \<Rightarrow> bool option" where
  "equal_3 [] ys = Some True"
| "equal_3 (x # xs) [] = None"
| "equal_3 (x # xs) (y # ys) = (if x = y then equal_3 xs ys else Some False)"

text \<open>
  Lexicographic comparison of two element sequences by the \<open><\<close> of the element type:
  the first position at which one of the two elements is smaller than the other decides
  (for the left sequence if its element is the smaller one); if there is no such position,
  the left sequence is smaller exactly when it ends first.
\<close>

fun lexicographic_less :: "'a::ord list \<Rightarrow> 'a list \<Rightarrow> bool" where
  "lexicographic_less [] ys \<longleftrightarrow> ys \<noteq> []"
| "lexicographic_less (x # xs) [] \<longleftrightarrow> False"
| "lexicographic_less (x # xs) (y # ys) \<longleftrightarrow> x < y \<or> (\<not> y < x \<and> lexicographic_less xs ys)"

section \<open>Predicates used in the statements\<close>

text \<open>
  The invariant of a list object: its size is the number of real nodes reachable from the
  sentinel, the chain from the sentinel has no node twice, and it ends with a null link
  (\<open>list_at\<close> says that the links lead from the sentinel through \<open>as\<close> to the null
  pointer).
\<close>

definition invariant :: "'a state \<Rightarrow> addr \<Rightarrow> bool" where
  "invariant s this \<longleftrightarrow> (\<exists>as. list_at s this as \<and> distinct (this # as))"

text \<open>
  \<open>appended s s' this prev cs vs\<close>: from \<open>s\<close> to \<open>s'\<close>, the nodes \<open>cs\<close>, none of
  which was alive in \<open>s\<close>, have been created with the values \<open>vs\<close> and chained after
  the node \<open>prev\<close>; no other node has changed, \<open>prev\<close> has kept its value, and the
  size of the list object at \<open>this\<close> has grown by their number.
\<close>

definition appended :: "'a state \<Rightarrow> 'a state \<Rightarrow> addr \<Rightarrow> addr \<Rightarrow> addr list \<Rightarrow> 'a list \<Rightarrow> bool" where
  "appended s s' this prev cs vs \<longleftrightarrow>
     length cs = length vs
     \<and> (\<forall>c \<in> set cs. nodes s c = None)
     \<and> path (nodes s') prev (prev # cs) 0
     \<and> vals s' cs = vs
     \<and> (\<forall>x. x \<notin> set (prev # cs) \<longrightarrow> nodes s' x = nodes s x)
     \<and> map_option val (nodes s' prev) = map_option val (nodes s prev)
     \<and> sizes s' = (sizes s)(this \<mapsto> the (sizes s this) + of_nat (length vs))"

text \<open>
  \<open>created s this prev vs r\<close>: \<open>r\<close> is the outcome of a loop that, started in \<open>s\<close>,
  was to append nodes for all of \<open>vs\<close> after \<open>prev\<close>: it did so and returned, or an
  allocation failed after the first \<open>k\<close> of them and the exception left those \<open>k\<close> nodes
  in place.
\<close>

definition created :: "'a state \<Rightarrow> addr \<Rightarrow> addr \<Rightarrow> 'a list \<Rightarrow> (unit, 'a) outcome option \<Rightarrow> bool" where
  "created s this prev vs r \<longleftrightarrow>
     (case r of
        None \<Rightarrow> False
      | Some (Return u s') \<Rightarrow> (\<exists>cs. appended s s' this prev cs vs)
      | Some (Throw s') \<Rightarrow> (\<exists>k cs. k < length vs \<and> appended s s' this prev cs (take k vs))
      | Some UB \<Rightarrow> False)"

text \<open>\<open>vacant s x\<close>: the address \<open>x\<close> is not null and holds no object in \<open>s\<close>.\<close>

definition vacant :: "'a state \<Rightarrow> addr \<Rightarrow> bool" where
  "vacant s x \<longleftrightarrow> x \<noteq> 0 \<and> nodes s x = None \<and> sizes s x = None"

text \<open>
  \<open>constructed s s' this cs vs\<close>: from \<open>s\<close> to \<open>s'\<close> a list has come to life at
  \<open>this\<close>; its nodes \<open>cs\<close> hold the values \<open>vs\<close> and none of them was alive in \<open>s\<close>;
  nothing else in the memory has changed.
\<close>

definition constructed :: "'a state \<Rightarrow> 'a state \<Rightarrow> addr \<Rightarrow> addr list \<Rightarrow> 'a list \<Rightarrow> bool" where
  "constructed s s' this cs vs \<longleftrightarrow>
     list_at s' this cs \<and> vals s' cs = vs
     \<and> (\<forall>c \<in> set cs. nodes s c = None)
     \<and> (\<forall>x. x \<notin> set (this # cs) \<longrightarrow> nodes s' x = nodes s x)
     \<and> (\<forall>x. x \<noteq> this \<longrightarrow> sizes s' x = sizes s x)"

section \<open>Example memories\<close>

text \<open>The list \<open>{10, 20}\<close> at address \<open>1\<close>, its nodes at \<open>2\<close> and \<open>3\<close>.\<close>

definition list_ab :: "int state" where
  "list_ab = \<lparr>nodes = Map.empty(1 \<mapsto> \<lparr>val = 0, next_node = 2\<rparr>,
                              2 \<mapsto> \<lparr>val = 10, next_node = 3\<rparr>,
                              3 \<mapsto> \<lparr>val = 20, next_node = 0\<rparr>),
             sizes = Map.empty(1 \<mapsto> 2)\<rparr>"

text \<open>No object is alive.\<close>

definition empty_mem :: "int state" where
  "empty_mem = \<lparr>nodes = Map.empty, sizes = Map.empty\<rparr>"

text \<open>The list \<open>{1, 2, 3}\<close> at address \<open>1\<close>, its nodes at \<open>2\<close>, \<open>3\<close> and \<open>4\<close>.\<close>

definition list_123 :: "int state" where
  "list_123 = \<lparr>nodes = Map.empty(1 \<mapsto> \<lparr>val = 0, next_node = 2\<rparr>,
                               2 \<mapsto> \<lparr>val = 1, next_node = 3\<rparr>,
                               3 \<mapsto> \<lparr>val = 2, next_node = 4\<rparr>,
                               4 \<mapsto> \<lparr>val = 3, next_node = 0\<rparr>),
              sizes = Map.empty(1 \<mapsto> 3)\<rparr>"

text \<open>
  Four lists in one memory: \<open>{1, 2}\<close> at address \<open>1\<close>, \<open>{1, 2, 3}\<close> at \<open>5\<close>,
  \<open>{2}\<close> at \<open>10\<close> and \<open>{1, 9}\<close> at \<open>12\<close>.
\<close>

definition four_lists :: "int state" where
  "four_lists = \<lparr>nodes = Map.empty(1 \<mapsto> \<lparr>val = 0, next_node = 2\<rparr>,
                                 2 \<mapsto> \<lparr>val = 1, next_node = 3\<rparr>,
                                 3 \<mapsto> \<lparr>val = 2, next_node = 0\<rparr>,
                                 5 \<mapsto> \<lparr>val = 0, next_node = 6\<rparr>,
                                 6 \<mapsto> \<lparr>val = 1, next_node = 7\<rparr>,
                                 7 \<mapsto> \<lparr>val = 2, next_node = 8\<rparr>,
                                 8 \<mapsto> \<lparr>val = 3, next_node = 0\<rparr>,
                                 10 \<mapsto> \<lparr>val = 0, next_node = 11\<rparr>,
                                 11 \<mapsto> \<lparr>val = 2, next_node = 0\<rparr>,
                                 12 \<mapsto> \<lparr>val = 0, next_node = 13\<rparr>,
                                 13 \<mapsto> \<lparr>val = 1, next_node = 14\<rparr>,
                                 14 \<mapsto> \<lparr>val = 9, next_node = 0\<rparr>),
                sizes = Map.empty(1 \<mapsto> 2, 5 \<mapsto> 3, 10 \<mapsto> 1, 12 \<mapsto> 2)\<rparr>"

text \<open>The list \<open>{1, 2}\<close> at address \<open>1\<close> and an empty list at address \<open>5\<close>.\<close>

definition list_and_empty :: "int state" where
  "list_and_empty = \<lparr>nodes = Map.empty(1 \<mapsto> \<lparr>val = 0, next_node = 2\<rparr>,
                                     2 \<mapsto> \<lparr>val = 1, next_node = 3\<rparr>,
                                     3 \<mapsto> \<lparr>val = 2, next_node = 0\<rparr>,
                                     5 \<mapsto> \<lparr>val = 0, next_node = 0\<rparr>),
                    sizes = Map.empty(1 \<mapsto> 2, 5 \<mapsto> 0)\<rparr>"

text \<open>
  The memory after \<open>Create\<close> with the one value \<open>7\<close> on the list \<open>{1, 2, 3}\<close> of
  \<open>list_123\<close>: the sentinel is linked to the new node at \<open>5\<close>, the old nodes are
  still alive, and \<open>size_\<close> is \<open>4\<close>.
\<close>

definition list_123_created :: "int state" where
  "list_123_created = \<lparr>nodes = Map.empty(1 \<mapsto> \<lparr>val = 0, next_node = 5\<rparr>,
                                       2 \<mapsto> \<lparr>val = 1, next_node = 3\<rparr>,
                                       3 \<mapsto> \<lparr>val = 2, next_node = 4\<rparr>,
                                       4 \<mapsto> \<lparr>val = 3, next_node = 0\<rparr>,
                                       5 \<mapsto> \<lparr>val = 7, next_node = 0\<rparr>),
                      sizes = Map.empty(1 \<mapsto> 4)\<rparr>"

section \<open>Paths and lists: basic facts\<close>

lemma path_null [simp]: "path h 0 as q \<longleftrightarrow> as = [] \<and> q = 0"
  by (cases as) auto

lemma path_append: "path h p (as @ bs) q \<longleftrightarrow> (\<exists>r. path h p as r \<and> path h r bs q)"
  by (induction as arbitrary: p) (auto split: option.splits)

lemma path_live: "path h p as q \<Longrightarrow> a \<in> set as \<Longrightarrow> a \<noteq> 0 \<and> h a \<noteq> None"
  by (induction as arbitrary: p) (auto split: option.splits)

lemma path_upd [simp]: "u \<notin> set as \<Longrightarrow> path (h(u := x)) p as q = path h p as q"
  by (induction as arbitrary: p) (auto split: option.splits)

lemma path_unique: "path h p as 0 \<Longrightarrow> path h p bs 0 \<Longrightarrow> as = bs"
proof (induction as arbitrary: p bs)
  case Nil
  then show ?case by simp
next
  case (Cons a as)
  then show ?case by (cases bs) (auto split: option.splits)
qed

lemma path_next_notin:
  assumes "h a = Some n" and "path h (next_node n) as 0"
  shows "a \<notin> set as"
proof
  assume "a \<in> set as"
  then obtain xs ys where as: "as = xs @ a # ys"
    by (auto simp: in_set_conv_decomp)
  with assms(2) obtain r where "path h r (a # ys) 0"
    by (auto simp: path_append)
  with assms(1) have "path h (next_node n) ys 0"
    by (auto split: option.splits)
  with assms(2) have "as = ys"
    by (rule path_unique)
  with as show False by simp
qed

lemma path_distinct: "path h p as 0 \<Longrightarrow> distinct as"
  by (induction as arbitrary: p) (auto split: option.splits dest: path_next_notin)

lemma distinct_addr_length:
  fixes xs :: "addr list"
  assumes "distinct xs"
  shows "length xs \<le> 2 ^ 64"
proof -
  have "length xs = card (set xs)"
    using assms by (simp add: distinct_card)
  also have "\<dots> \<le> card (UNIV :: addr set)"
    by (rule card_mono) auto
  also have "\<dots> = 2 ^ 64"
    by (simp add: card_word)
  finally show ?thesis .
qed

lemma unat_succ:
  fixes n :: size_t
  assumes "unat n + 1 < 2 ^ 64"
  shows "unat (n + 1) = unat n + 1"
  using assms by (simp add: unat_word_ariths)

lemma unat_pred:
  fixes n :: size_t
  assumes "0 < unat n"
  shows "unat (n - 1) = unat n - 1"
  using assms by (metis unat_minus_one unat_eq_zero less_numeral_extra(3))


lemma path_insert:
  assumes p: "path h this (pre @ p # post) 0"
    and a: "h a = None" "a \<noteq> 0"
    and n: "h p = Some n"
  shows "path (h(a \<mapsto> \<lparr>val = v, next_node = next_node n\<rparr>, p \<mapsto> n\<lparr>next_node := a\<rparr>))
           this (pre @ p # a # post) 0"
proof -
  have d: "distinct (pre @ p # post)"
    using p by (rule path_distinct)
  have "a \<notin> set (pre @ p # post)"
    using path_live [OF p, of a] a by auto
  with d p n a show ?thesis
    by (auto simp: path_append)
qed

lemma path_erase:
  assumes p: "path h this (pre @ p # e # post) 0"
    and n: "h p = Some n" and en: "h e = Some x"
  shows "path ((h(p \<mapsto> n\<lparr>next_node := next_node x\<rparr>))(e := None)) this (pre @ p # post) 0"
proof -
  have d: "distinct (pre @ p # e # post)"
    using p by (rule path_distinct)
  with p n en show ?thesis
    by (auto simp: path_append)
qed

lemma vals_Nil [simp]: "vals s [] = []"
  by (simp add: vals_def)

lemma vals_Cons [simp]: "vals s (a # as) = val (the (nodes s a)) # vals s as"
  by (simp add: vals_def)

lemma vals_append [simp]: "vals s (as @ bs) = vals s as @ vals s bs"
  by (simp add: vals_def)

lemma vals_cong:
  assumes "\<And>a. a \<in> set as \<Longrightarrow> val (the (nodes s' a)) = val (the (nodes s a))"
  shows "vals s' as = vals s as"
  using assms by (simp add: vals_def)

lemma list_at_live:
  assumes "list_at s this as" and "a \<in> set (this # as)"
  shows "a \<noteq> 0 \<and> nodes s a \<noteq> None"
  using assms path_live [of "nodes s" this "this # as" 0 a] by (simp add: list_at_def)

lemma list_at_distinct: "list_at s this as \<Longrightarrow> distinct (this # as)"
  unfolding list_at_def using path_distinct by blast

lemma list_at_fresh:
  assumes "list_at s this as" and "nodes s a = None"
  shows "a \<notin> set (this # as)"
  using list_at_live [OF assms(1), of a] assms(2) by blast

lemma list_at_size:
  assumes "list_at s this as"
  obtains m where "sizes s this = Some m" and "unat m = length as"
  using assms by (auto simp: list_at_def)

lemma list_at_room:
  assumes "list_at s this as" and "nodes s a = None"
  shows "length as + 2 \<le> 2 ^ 64"
proof -
  have "distinct (a # this # as)"
    using list_at_distinct [OF assms(1)] list_at_fresh [OF assms] by simp
  from distinct_addr_length [OF this] show ?thesis by simp
qed


lemma InsertAfter_eval:
  assumes "p \<noteq> 0" and "nodes s p = Some n" and "sizes s this = Some m"
  shows "InsertAfter alloc s this \<lparr>node = p\<rparr> v =
     (case alloc s of
        None \<Rightarrow> Throw s
      | Some a \<Rightarrow> Return \<lparr>node = a\<rparr>
          (s\<lparr>nodes := (nodes s)(a \<mapsto> \<lparr>val = v, next_node = next_node n\<rparr>,
                                 p \<mapsto> (if a = p then \<lparr>val = v, next_node = next_node n\<rparr> else n)\<lparr>next_node := a\<rparr>),
              sizes := (sizes s)(this \<mapsto> m + 1)\<rparr>))"
  using assms
  by (simp add: InsertAfter_def load_def new_Node_def store_next_def store_size_def
      split: option.splits)

lemma EraseAfter_eval:
  assumes "p \<noteq> 0" and "nodes s p = Some n" and "next_node n \<noteq> 0"
    and "nodes s (next_node n) = Some e" and "sizes s this = Some m"
  shows "EraseAfter s this \<lparr>node = p\<rparr> =
     Return \<lparr>node = next_node e\<rparr>
       (s\<lparr>nodes := ((nodes s)(p \<mapsto> n\<lparr>next_node := next_node e\<rparr>))(next_node n := None),
           sizes := (sizes s)(this \<mapsto> m - 1)\<rparr>)"
  using assms
  by (simp add: EraseAfter_def load_def delete_Node_def store_next_def store_size_def Let_def)

lemma PushFront_InsertAfter:
  "PushFront alloc s this v =
     (case InsertAfter alloc s this (before_begin this) v of
        Return it s' \<Rightarrow> Return () s' | Throw s' \<Rightarrow> Throw s' | UB \<Rightarrow> UB)"
  by (simp add: PushFront_def InsertAfter_def before_begin_def split: option.splits)


lemma InsertAfter_split:
  assumes va: "valid_alloc alloc" and l: "list_at s this as"
    and dec: "this # as = pre @ p # post" and al: "alloc s = Some a"
  shows "\<exists>s'. InsertAfter alloc s this \<lparr>node = p\<rparr> v = Return \<lparr>node = a\<rparr> s'
           \<and> list_at s' this (tl (pre @ p # a # post))
           \<and> vals s' (pre @ p # a # post) = vals s (pre @ [p]) @ v # vals s post
           \<and> nodes s' a = Some \<lparr>val = v, next_node = (case post of [] \<Rightarrow> 0 | x # xs \<Rightarrow> x)\<rparr>
           \<and> map_option next_node (nodes s' p) = Some a
           \<and> (\<forall>x. x \<noteq> a \<and> x \<noteq> p \<longrightarrow> nodes s' x = nodes s x)
           \<and> sizes s' = (sizes s)(this \<mapsto> the (sizes s this) + 1)"
proof -
  from va al have a: "a \<noteq> 0" "nodes s a = None"
    by (auto simp: valid_alloc_def)
  have pin: "p \<in> set (this # as)"
    by (simp add: dec)
  from list_at_live [OF l pin] obtain n where n: "p \<noteq> 0" "nodes s p = Some n"
    by auto
  from l obtain m where m: "sizes s this = Some m" "unat m = length as"
    by (rule list_at_size)
  have ap: "a \<noteq> p"
    using a n by auto
  define s' where "s' = s\<lparr>nodes := (nodes s)(a \<mapsto> \<lparr>val = v, next_node = next_node n\<rparr>,
                                 p \<mapsto> n\<lparr>next_node := a\<rparr>),
              sizes := (sizes s)(this \<mapsto> m + 1)\<rparr>"
  have ev: "InsertAfter alloc s this \<lparr>node = p\<rparr> v = Return \<lparr>node = a\<rparr> s'"
    using InsertAfter_eval [OF n m(1), of alloc v] al ap by (simp add: s'_def)
  have pth: "path (nodes s) this (pre @ p # post) 0"
    using l dec by (simp add: list_at_def)
  have pth': "path (nodes s') this (pre @ p # a # post) 0"
    using path_insert [OF pth a(2) a(1) n(2), of v] by (simp add: s'_def)
  have hd: "pre @ p # a # post = this # tl (pre @ p # a # post)"
    using dec by (cases pre) auto
  have len: "length (tl (pre @ p # a # post)) = length as + 1"
    using arg_cong [OF dec, of length] by simp
  have "unat (m + 1) = unat m + 1"
    using list_at_room [OF l a(2)] m(2) by (intro unat_succ) simp
  with m len have sz: "map_option unat (sizes s' this) = Some (length (tl (pre @ p # a # post)))"
    by (simp add: s'_def)
  have la: "list_at s' this (tl (pre @ p # a # post))"
    unfolding list_at_def using pth' hd sz by metis
  have d: "distinct (pre @ p # post)"
    using pth by (rule path_distinct)
  have afr: "a \<notin> set (pre @ p # post)"
    using list_at_fresh [OF l a(2)] dec by simp
  have v1: "vals s' pre = vals s pre"
    by (rule vals_cong) (use d afr in \<open>auto simp: s'_def\<close>)
  have v2: "vals s' post = vals s post"
    by (rule vals_cong) (use d afr in \<open>auto simp: s'_def\<close>)
  have vs: "vals s' (pre @ p # a # post) = vals s (pre @ [p]) @ v # vals s post"
    using v1 v2 n ap by (simp add: s'_def)
  have nx: "next_node n = (case post of [] \<Rightarrow> 0 | x # xs \<Rightarrow> x)"
    using pth n by (cases post) (auto simp: path_append)
  show ?thesis
    using ev la vs nx ap m by (intro exI [of _ s']) (simp add: s'_def)
qed


lemma EraseAfter_split:
  assumes l: "list_at s this as" and dec: "this # as = pre @ p # e # post"
  shows "\<exists>s'. EraseAfter s this \<lparr>node = p\<rparr> =
              Return \<lparr>node = (case post of [] \<Rightarrow> 0 | x # xs \<Rightarrow> x)\<rparr> s'
           \<and> list_at s' this (tl (pre @ p # post))
           \<and> vals s' (pre @ p # post) = vals s (pre @ [p]) @ vals s post
           \<and> nodes s' e = None
           \<and> map_option next_node (nodes s' p) = Some (case post of [] \<Rightarrow> 0 | x # xs \<Rightarrow> x)
           \<and> (\<forall>x. x \<noteq> e \<and> x \<noteq> p \<longrightarrow> nodes s' x = nodes s x)
           \<and> sizes s' = (sizes s)(this \<mapsto> the (sizes s this) - 1)
           \<and> map_option val (nodes s' p) = map_option val (nodes s p)"
proof -
  have pin: "p \<in> set (this # as)" and ein: "e \<in> set (this # as)"
    by (simp_all add: dec)
  from list_at_live [OF l pin] obtain n where n: "p \<noteq> 0" "nodes s p = Some n"
    by auto
  from list_at_live [OF l ein] obtain x where x: "e \<noteq> 0" "nodes s e = Some x"
    by auto
  from l obtain m where m: "sizes s this = Some m" "unat m = length as"
    by (rule list_at_size)
  have pth: "path (nodes s) this (pre @ p # e # post) 0"
    using l dec by (simp add: list_at_def)
  have ne: "next_node n = e"
    using pth n by (auto simp: path_append)
  have nx: "next_node x = (case post of [] \<Rightarrow> 0 | y # ys \<Rightarrow> y)"
    using pth n x by (cases post) (auto simp: path_append)
  define s' where "s' = s\<lparr>nodes := ((nodes s)(p \<mapsto> n\<lparr>next_node := next_node x\<rparr>))(e := None),
           sizes := (sizes s)(this \<mapsto> m - 1)\<rparr>"
  have ev: "EraseAfter s this \<lparr>node = p\<rparr> = Return \<lparr>node = next_node x\<rparr> s'"
    using EraseAfter_eval [OF n, of x this m] x m ne by (simp add: s'_def)
  have pth': "path (nodes s') this (pre @ p # post) 0"
    using path_erase [OF pth n(2) x(2)] by (simp add: s'_def)
  have hd: "pre @ p # post = this # tl (pre @ p # post)"
    using dec by (cases pre) auto
  have len: "length (tl (pre @ p # post)) + 1 = length as"
    using arg_cong [OF dec, of length] by simp
  then have "0 < unat m"
    using m by (cases as) auto
  then have "unat (m - 1) = unat m - 1"
    by (rule unat_pred)
  with m len have sz: "map_option unat (sizes s' this) = Some (length (tl (pre @ p # post)))"
    by (simp add: s'_def)
  have la: "list_at s' this (tl (pre @ p # post))"
    unfolding list_at_def using pth' hd sz by metis
  have d: "distinct (pre @ p # e # post)"
    using pth by (rule path_distinct)
  have v1: "vals s' pre = vals s pre"
    by (rule vals_cong) (use d in \<open>auto simp: s'_def\<close>)
  have v2: "vals s' post = vals s post"
    by (rule vals_cong) (use d in \<open>auto simp: s'_def\<close>)
  have pe: "p \<noteq> e"
    using d by simp
  have vs: "vals s' (pre @ p # post) = vals s (pre @ [p]) @ vals s post"
    using v1 v2 n pe by (simp add: s'_def)
  show ?thesis
    using ev la vs nx pe m n by (intro exI [of _ s']) (simp add: s'_def)
qed


lemma traverse_path:
  assumes "path (nodes s) p as 0"
  shows "traverse s \<lparr>node = p\<rparr> \<lparr>node = 0\<rparr> out = Some (Some (out @ vals s as))"
  using assms
proof (induction as arbitrary: p out)
  case Nil
  then show ?case
    by (subst traverse.simps) (simp add: it_ne_def)
next
  case (Cons a as)
  then obtain n where n: "p = a" "a \<noteq> 0" "nodes s a = Some n" "path (nodes s) (next_node n) as 0"
    by (auto split: option.splits)
  from Cons.IH [OF n(4), of "out @ [val n]"] n(1-3) show ?case
    by (subst traverse.simps) (simp add: it_ne_def it_deref_def it_incr_def load_def)
qed

lemma list_at_head:
  assumes "list_at s this as"
  obtains n where "this \<noteq> 0" and "nodes s this = Some n" and "path (nodes s) (next_node n) as 0"
  using assms by (auto simp: list_at_def split: option.splits)

lemma items_list:
  assumes "list_at s this as"
  shows "items s this = Some (Some (vals s as))"
proof -
  from assms obtain n where "this \<noteq> 0" "nodes s this = Some n" "path (nodes s) (next_node n) as 0"
    by (rule list_at_head)
  then show ?thesis
    using traverse_path [of s "next_node n" as "[]"]
    by (simp add: items_def list_begin_def list_end_def load_def)
qed


lemma vals_take: "vals s (take i as) = take i (vals s as)"
  by (simp add: vals_def take_map)

lemma vals_drop: "vals s (drop i as) = drop i (vals s as)"
  by (simp add: vals_def drop_map)

lemma vals_tl: "vals s (tl as) = tl (vals s as)"
  by (simp add: vals_def map_tl)

lemma split_at:
  assumes "i \<le> length as"
  shows "this # as = take i (this # as) @ (this # as) ! i # drop i as"
  using assms id_take_nth_drop [of i "this # as"] by simp

lemma take_sentinel:
  assumes "i \<le> length as"
  shows "take i (this # as) @ [(this # as) ! i] = this # take i as"
  using assms by (cases i) (simp_all add: take_Suc_conv_app_nth)

lemma InsertAfter_index:
  assumes va: "valid_alloc alloc" and l: "list_at s this as"
    and i: "i \<le> length as" and al: "alloc s = Some a"
  shows "\<exists>s'. InsertAfter alloc s this \<lparr>node = (this # as) ! i\<rparr> v = Return \<lparr>node = a\<rparr> s'
           \<and> list_at s' this (take i as @ a # drop i as)
           \<and> vals s' (take i as @ a # drop i as) = take i (vals s as) @ v # drop i (vals s as)
           \<and> nodes s' a = Some \<lparr>val = v, next_node = (if i < length as then as ! i else 0)\<rparr>
           \<and> map_option next_node (nodes s' ((this # as) ! i)) = Some a
           \<and> (\<forall>x. x \<noteq> a \<and> x \<noteq> (this # as) ! i \<longrightarrow> nodes s' x = nodes s x)
           \<and> sizes s' = (sizes s)(this \<mapsto> the (sizes s this) + 1)"
proof -
  define pre where "pre = take i (this # as)"
  define p where "p = (this # as) ! i"
  define post where "post = drop i as"
  have dec: "this # as = pre @ p # post"
    unfolding pre_def p_def post_def using i by (rule split_at)
  have pp: "pre @ [p] = this # take i as"
    unfolding pre_def p_def using i by (rule take_sentinel)
  then have shape: "pre @ p # a # post = this # take i as @ a # drop i as"
    by (simp add: post_def)
  have nx: "(case post of [] \<Rightarrow> 0 | x # xs \<Rightarrow> x) = (if i < length as then as ! i else 0)"
    by (cases "i < length as") (simp_all add: post_def Cons_nth_drop_Suc [symmetric])
  from InsertAfter_split [OF va l dec al, of v] obtain s' where
    s': "InsertAfter alloc s this \<lparr>node = p\<rparr> v = Return \<lparr>node = a\<rparr> s'"
      "list_at s' this (tl (pre @ p # a # post))"
      "vals s' (pre @ p # a # post) = vals s (pre @ [p]) @ v # vals s post"
      "nodes s' a = Some \<lparr>val = v, next_node = (case post of [] \<Rightarrow> 0 | x # xs \<Rightarrow> x)\<rparr>"
      "map_option next_node (nodes s' p) = Some a"
      "\<forall>x. x \<noteq> a \<and> x \<noteq> p \<longrightarrow> nodes s' x = nodes s x"
      "sizes s' = (sizes s)(this \<mapsto> the (sizes s this) + 1)"
    by blast
  have A: "vals s' (tl (pre @ p # a # post)) = tl (vals s (pre @ [p]) @ v # vals s post)"
    using s'(3) by (simp only: vals_tl)
  have L: "tl (pre @ p # a # post) = take i as @ a # drop i as"
    by (simp only: shape list.sel)
  have R: "tl (vals s (pre @ [p]) @ v # vals s post)
             = take i (vals s as) @ v # drop i (vals s as)"
    by (simp add: pp post_def vals_take vals_drop)
  have vs: "vals s' (take i as @ a # drop i as) = take i (vals s as) @ v # drop i (vals s as)"
    using A unfolding L R .
  show ?thesis
    using s'(1,4-7) s'(2) [unfolded L] vs nx by (intro exI [of _ s']) (simp add: p_def)
qed


lemma EraseAfter_index:
  assumes l: "list_at s this as" and i: "i < length as"
  shows "\<exists>s'. EraseAfter s this \<lparr>node = (this # as) ! i\<rparr> =
              Return \<lparr>node = (if Suc i < length as then as ! Suc i else 0)\<rparr> s'
           \<and> list_at s' this (take i as @ drop (Suc i) as)
           \<and> vals s' (take i as @ drop (Suc i) as) = take i (vals s as) @ drop (Suc i) (vals s as)
           \<and> nodes s' (as ! i) = None
           \<and> map_option next_node (nodes s' ((this # as) ! i))
                = Some (if Suc i < length as then as ! Suc i else 0)
           \<and> (\<forall>x. x \<noteq> as ! i \<and> x \<noteq> (this # as) ! i \<longrightarrow> nodes s' x = nodes s x)
           \<and> sizes s' = (sizes s)(this \<mapsto> the (sizes s this) - 1)
           \<and> map_option val (nodes s' ((this # as) ! i)) = map_option val (nodes s ((this # as) ! i))"
proof -
  define pre where "pre = take i (this # as)"
  define p where "p = (this # as) ! i"
  define e where "e = as ! i"
  define post where "post = drop (Suc i) as"
  have i': "i \<le> length as"
    using i by simp
  have dec: "this # as = pre @ p # e # post"
    unfolding pre_def p_def post_def e_def
    using split_at [OF i', of this] i by (simp add: Cons_nth_drop_Suc)
  have pp: "pre @ [p] = this # take i as"
    unfolding pre_def p_def using i' by (rule take_sentinel)
  then have shape: "pre @ p # post = this # take i as @ drop (Suc i) as"
    by (simp add: post_def)
  have nx: "(case post of [] \<Rightarrow> 0 | x # xs \<Rightarrow> x) = (if Suc i < length as then as ! Suc i else 0)"
    by (cases "Suc i < length as") (simp_all add: post_def Cons_nth_drop_Suc [symmetric])
  from EraseAfter_split [OF l dec] obtain s' where
    s': "EraseAfter s this \<lparr>node = p\<rparr> = Return \<lparr>node = (case post of [] \<Rightarrow> 0 | x # xs \<Rightarrow> x)\<rparr> s'"
      "list_at s' this (tl (pre @ p # post))"
      "vals s' (pre @ p # post) = vals s (pre @ [p]) @ vals s post"
      "nodes s' e = None"
      "map_option next_node (nodes s' p) = Some (case post of [] \<Rightarrow> 0 | x # xs \<Rightarrow> x)"
      "\<forall>x. x \<noteq> e \<and> x \<noteq> p \<longrightarrow> nodes s' x = nodes s x"
      "sizes s' = (sizes s)(this \<mapsto> the (sizes s this) - 1)"
      "map_option val (nodes s' p) = map_option val (nodes s p)"
    by blast
  have A: "vals s' (tl (pre @ p # post)) = tl (vals s (pre @ [p]) @ vals s post)"
    using s'(3) by (simp only: vals_tl)
  have L: "tl (pre @ p # post) = take i as @ drop (Suc i) as"
    by (simp only: shape list.sel)
  have R: "tl (vals s (pre @ [p]) @ vals s post)
             = take i (vals s as) @ drop (Suc i) (vals s as)"
    by (simp add: pp post_def vals_take vals_drop)
  have vs: "vals s' (take i as @ drop (Suc i) as) = take i (vals s as) @ drop (Suc i) (vals s as)"
    using A unfolding L R .
  show ?thesis
    using s'(1,4-8) s'(2) [unfolded L] vs nx
    by (intro exI [of _ s']) (simp add: p_def e_def)
qed

lemma valid_alloc_first_fit: "valid_alloc (first_fit n)"
  unfolding valid_alloc_def first_fit_def
  by (auto simp: find_Some_iff)

section \<open>PushFront on a list\<close>

lemma PushFront_list:
  assumes va: "valid_alloc alloc" and l: "list_at s this as"
  shows "case PushFront alloc s this v of
           Return u s' \<Rightarrow> (\<exists>a. alloc s = Some a \<and> list_at s' this (a # as)
                              \<and> vals s' (a # as) = v # vals s as)
         | Throw s' \<Rightarrow> alloc s = None \<and> s' = s
         | UB \<Rightarrow> False"
proof (cases "alloc s")
  case None
  from l obtain n where n: "this \<noteq> 0" "nodes s this = Some n"
    by (rule list_at_head)
  from l obtain m where m: "sizes s this = Some m"
    by (rule list_at_size)
  show ?thesis
    using InsertAfter_eval [OF n m, of alloc v] None
    by (simp add: PushFront_InsertAfter before_begin_def)
next
  case (Some a)
  from InsertAfter_index [OF va l _ Some, of 0 v] Some show ?thesis
    by (auto simp: PushFront_InsertAfter before_begin_def)
qed

lemma PushFront_seq_list:
  assumes va: "valid_alloc alloc" and l: "list_at s this as"
  shows "case PushFront_seq alloc s this vs of
           Return u s' \<Rightarrow> (\<exists>bs. length bs = length vs \<and> list_at s' this (bs @ as)
                              \<and> vals s' (bs @ as) = rev vs @ vals s as)
         | Throw s' \<Rightarrow> (\<exists>k bs. k < length vs \<and> list_at s' this (bs @ as)
                              \<and> vals s' (bs @ as) = rev (take k vs) @ vals s as)
         | UB \<Rightarrow> False"
  using l
proof (induction vs arbitrary: s as)
  case Nil
  then show ?case by simp
next
  case (Cons v vs)
  show ?case
  proof (cases "PushFront alloc s this v")
    case (Return u s1)
    with PushFront_list [OF va Cons.prems, of v] obtain a where
      a: "list_at s1 this (a # as)" "vals s1 (a # as) = v # vals s as"
      by auto
    show ?thesis
    proof (cases "PushFront_seq alloc s1 this vs")
      case (Return u' s2)
      with Cons.IH [OF a(1)] obtain bs where
        bs: "length bs = length vs" "list_at s2 this (bs @ a # as)"
          "vals s2 (bs @ a # as) = rev vs @ vals s1 (a # as)"
        by auto
      have "\<exists>cs. length cs = length (v # vs) \<and> list_at s2 this (cs @ as)
             \<and> vals s2 (cs @ as) = rev (v # vs) @ vals s as"
        by (rule exI [of _ "bs @ [a]"]) (use bs a(2) in simp)
      then show ?thesis
        using \<open>PushFront alloc s this v = Return u s1\<close> Return by simp
    next
      case (Throw s2)
      with Cons.IH [OF a(1)] obtain k bs where
        bs: "k < length vs" "list_at s2 this (bs @ a # as)"
          "vals s2 (bs @ a # as) = rev (take k vs) @ vals s1 (a # as)"
        by auto
      have "\<exists>j cs. j < length (v # vs) \<and> list_at s2 this (cs @ as)
             \<and> vals s2 (cs @ as) = rev (take j (v # vs)) @ vals s as"
        by (rule exI [of _ "Suc k"], rule exI [of _ "bs @ [a]"]) (use bs a(2) in simp)
      then show ?thesis
        using \<open>PushFront alloc s this v = Return u s1\<close> Throw by simp
    next
      case UB
      with Cons.IH [OF a(1)] show ?thesis by simp
    qed
  next
    case (Throw s1)
    with PushFront_list [OF va Cons.prems, of v] have "s1 = s"
      by simp
    with Cons.prems have "\<exists>j cs. j < length (v # vs) \<and> list_at s1 this (cs @ as)
        \<and> vals s1 (cs @ as) = rev (take j (v # vs)) @ vals s as"
      by (intro exI [of _ 0] exI [of _ "[]"]) simp
    then show ?thesis
      using Throw by simp
  next
    case UB
    with PushFront_list [OF va Cons.prems, of v] show ?thesis by simp
  qed
qed

text \<open>\<open>PushFront\<close> throws only when the allocation fails, and then changes nothing.\<close>

lemma PushFront_throws:
  assumes "PushFront alloc s this v = Throw s'"
  shows "s' = s \<and> alloc s = None"
  using assms
  by (simp add: PushFront_def new_Node_def split: option.splits prod.splits)

lemma PushFront_seq_throws:
  assumes "PushFront_seq alloc s this vs = Throw s'"
  shows "alloc s' = None"
  using assms
proof (induction vs arbitrary: s)
  case Nil
  then show ?case by simp
next
  case (Cons v vs)
  show ?case
  proof (cases "PushFront alloc s this v")
    case (Return u s1)
    with Cons show ?thesis by simp
  next
    case (Throw s1)
    with Cons.prems have "s1 = s'" by simp
    with PushFront_throws [OF Throw] show ?thesis by simp
  next
    case UB
    with Cons.prems show ?thesis by simp
  qed
qed

section \<open>Running the operations on a concrete memory\<close>

lemmas run_defs = PushFront_def InsertAfter_def EraseAfter_def PopFront_def swap_def
  load_def new_Node_def store_next_def store_size_def delete_Node_def first_fit_def upt_rec
  before_begin_def list_begin_def list_end_def it_deref_def it_incr_def it_ne_def it_eq_def
  SingleLinkedList_default_def release_def GetSize_def IsEmpty_def Let_def

lemmas ctor_defs = operator_assign_def SingleLinkedList_copy_def SingleLinkedList_values_def
  construct_from_def Create_def Create_loop.simps Clear_def Clear_loop.simps leave_scope_def
  destructor_def array_get_def array_inc_def

section \<open>The comparison loops on two lists\<close>

lemma ex_nat_cases: "(\<exists>i::nat. P i) \<longleftrightarrow> P 0 \<or> (\<exists>i. P (Suc i))"
  by (metis not0_implies_Suc)

lemma all_less_Suc_cases: "(\<forall>j < Suc i. P j) \<longleftrightarrow> P 0 \<and> (\<forall>j < i. P (Suc j))"
  by (auto simp: less_Suc_eq_0_disj)

text \<open>
  The recursion of \<open>lexicographic_less\<close> says what its description says: there is a
  position \<open>i\<close> before which neither element is smaller than the other, and at \<open>i\<close> the
  left element is the smaller one, or the left sequence has ended and the right one has
  not.
\<close>

lemma lexicographic_less_iff:
  "lexicographic_less xs ys \<longleftrightarrow>
     (\<exists>i. i \<le> length xs \<and> i < length ys
          \<and> (\<forall>j < i. \<not> xs ! j < ys ! j \<and> \<not> ys ! j < xs ! j)
          \<and> (i < length xs \<longrightarrow> xs ! i < ys ! i))"
proof (induction xs ys rule: lexicographic_less.induct)
  case (1 ys)
  then show ?case by (cases ys) auto
next
  case (2 x xs)
  then show ?case by simp
next
  case (3 x xs y ys)
  show ?case
    by (subst ex_nat_cases) (simp add: all_less_Suc_cases "3.IH", blast)
qed

lemma lexicographic_less_lexord_if:
  assumes "\<forall>x \<in> set xs. \<forall>y \<in> set ys. \<not> x < y \<and> \<not> y < x \<longrightarrow> x = y"
  shows "lexicographic_less xs ys \<longleftrightarrow> (xs, ys) \<in> lexord {(x, y). x < y}"
  using assms
proof (induction xs ys rule: lexicographic_less.induct)
  case (1 ys)
  then show ?case by (cases ys) auto
next
  case (2 x xs)
  then show ?case by simp
next
  case (3 x xs y ys)
  then have ih: "lexicographic_less xs ys \<longleftrightarrow> (xs, ys) \<in> lexord {(x, y). x < y}"
    by simp
  from "3.prems" have eq: "\<not> x < y \<and> \<not> y < x \<longrightarrow> x = y"
    by simp
  show ?case
    using ih eq by auto
qed

lemma lexicographic_less_lexord:
  fixes xs ys :: "'a::linorder list"
  shows "lexicographic_less xs ys \<longleftrightarrow> (xs, ys) \<in> lexord {(x, y). x < y}"
  by (rule lexicographic_less_lexord_if) auto

lemma lex_compare_path:
  assumes "path (nodes s) p as 0" and "path (nodes s) q bs 0"
  shows "std_lexicographical_compare s \<lparr>node = p\<rparr> \<lparr>node = 0\<rparr> \<lparr>node = q\<rparr> \<lparr>node = 0\<rparr>
           = Some (Some (lexicographic_less (vals s as) (vals s bs)))"
  using assms
proof (induction as arbitrary: p q bs)
  case Nil
  then show ?case
    by (subst std_lexicographical_compare.simps, cases bs)
      (auto simp: it_ne_def it_eq_def split: option.splits)
next
  case (Cons a as)
  from Cons.prems(1) obtain n where
    n: "p = a" "a \<noteq> 0" "nodes s a = Some n" "path (nodes s) (next_node n) as 0"
    by (auto split: option.splits)
  show ?case
  proof (cases bs)
    case Nil
    with Cons.prems(2) n(1,2) show ?thesis
      by (subst std_lexicographical_compare.simps) (simp add: it_ne_def it_eq_def)
  next
    case (Cons b bs')
    with Cons.prems(2) obtain m where
      m: "q = b" "b \<noteq> 0" "nodes s b = Some m" "path (nodes s) (next_node m) bs' 0"
      by (auto split: option.splits)
    from Cons.IH [OF n(4) m(4)] n(1-3) m(1-3) Cons show ?thesis
      by (subst std_lexicographical_compare.simps)
        (auto simp: it_ne_def it_deref_def it_incr_def load_def)
  qed
qed

lemma operator_lt_list:
  assumes "list_at s lhs as" and "list_at s rhs bs"
  shows "operator_lt s lhs rhs = Some (Some (lexicographic_less (vals s as) (vals s bs)))"
proof -
  from assms(1) obtain n where n: "lhs \<noteq> 0" "nodes s lhs = Some n" "path (nodes s) (next_node n) as 0"
    by (rule list_at_head)
  from assms(2) obtain m where m: "rhs \<noteq> 0" "nodes s rhs = Some m" "path (nodes s) (next_node m) bs 0"
    by (rule list_at_head)
  from lex_compare_path [OF n(3) m(3)] n(1,2) m(1,2) show ?thesis
    by (simp add: operator_lt_def list_begin_def list_end_def load_def)
qed

lemma std_equal_path:
  assumes "path (nodes s) p as 0" and "path (nodes s) q bs 0"
  shows "std_equal s \<lparr>node = p\<rparr> \<lparr>node = 0\<rparr> \<lparr>node = q\<rparr>
           = Some (equal_3 (vals s as) (vals s bs))"
  using assms
proof (induction as arbitrary: p q bs)
  case Nil
  then show ?case
    by (subst std_equal.simps) (simp add: it_ne_def)
next
  case (Cons a as)
  from Cons.prems(1) obtain n where
    n: "p = a" "a \<noteq> 0" "nodes s a = Some n" "path (nodes s) (next_node n) as 0"
    by (auto split: option.splits)
  show ?case
  proof (cases bs)
    case Nil
    with Cons.prems(2) n(1-3) show ?thesis
      by (subst std_equal.simps) (simp add: it_ne_def it_deref_def load_def)
  next
    case (Cons b bs')
    with Cons.prems(2) obtain m where
      m: "q = b" "b \<noteq> 0" "nodes s b = Some m" "path (nodes s) (next_node m) bs' 0"
      by (auto split: option.splits)
    from Cons.IH [OF n(4) m(4)] n(1-3) m(1-3) Cons show ?thesis
      by (subst std_equal.simps)
        (auto simp: it_ne_def it_deref_def it_incr_def load_def)
  qed
qed

lemma operator_eq_list:
  assumes "list_at s lhs as" and "list_at s rhs bs"
  shows "operator_eq s lhs rhs = Some (equal_3 (vals s as) (vals s bs))"
proof -
  from assms(1) obtain n where n: "lhs \<noteq> 0" "nodes s lhs = Some n" "path (nodes s) (next_node n) as 0"
    by (rule list_at_head)
  from assms(2) obtain m where m: "rhs \<noteq> 0" "nodes s rhs = Some m" "path (nodes s) (next_node m) bs 0"
    by (rule list_at_head)
  from std_equal_path [OF n(3) m(3)] n(1,2) m(1,2) show ?thesis
    by (simp add: operator_eq_def list_begin_def list_end_def load_def)
qed

lemma equal_3_prefix: "equal_3 xs (xs @ ys) = Some True"
  by (induction xs) simp_all

section \<open>Create\<close>

lemma appended_base:
  assumes "prev \<noteq> 0" and "nodes s prev = Some pn" and "next_node pn = 0"
    and "sizes s this = Some m"
  shows "appended s s this prev [] []"
  using assms by (auto simp: appended_def fun_eq_iff)

lemma appended_step:
  assumes prev: "prev \<noteq> 0" "nodes s prev = Some pn"
    and a: "a \<noteq> 0" "nodes s a = None"
    and m: "sizes s this = Some m"
    and s3: "s3 = s\<lparr>nodes := (nodes s)(a \<mapsto> \<lparr>val = v, next_node = 0\<rparr>, prev \<mapsto> pn\<lparr>next_node := a\<rparr>),
                    sizes := (sizes s)(this \<mapsto> m + 1)\<rparr>"
    and ap: "appended s3 s' this a cs vs"
  shows "appended s s' this prev (a # cs) (v # vs)"
proof -
  have pa: "prev \<noteq> a"
    using prev a by auto
  from ap have len: "length cs = length vs"
    and fresh: "\<forall>c \<in> set cs. nodes s3 c = None"
    and pth: "path (nodes s') a (a # cs) 0"
    and vs: "vals s' cs = vs"
    and frame: "\<forall>x. x \<notin> set (a # cs) \<longrightarrow> nodes s' x = nodes s3 x"
    and va: "map_option val (nodes s' a) = map_option val (nodes s3 a)"
    and sz: "sizes s' = (sizes s3)(this \<mapsto> the (sizes s3 this) + of_nat (length vs))"
    by (simp_all add: appended_def)
  have "nodes s3 prev \<noteq> None" and "nodes s3 a \<noteq> None"
    by (simp_all add: s3)
  with fresh have pcs: "prev \<notin> set cs" and acs: "a \<notin> set cs"
    by auto
  have f1: "\<forall>c \<in> set (a # cs). nodes s c = None"
    using fresh a pa by (auto simp: s3 split: if_splits)
  have np: "nodes s' prev = Some (pn\<lparr>next_node := a\<rparr>)"
    using frame pcs pa by (simp add: s3)
  have p1: "path (nodes s') prev (prev # a # cs) 0"
    using pth np prev(1) by simp
  have v1: "vals s' (a # cs) = v # vs"
    using vs va pth pa by (auto simp: s3 split: option.splits)
  have fr: "\<forall>x. x \<notin> set (prev # a # cs) \<longrightarrow> nodes s' x = nodes s x"
    using frame by (simp add: s3)
  have vp: "map_option val (nodes s' prev) = map_option val (nodes s prev)"
    using np prev by simp
  have s1: "sizes s' = (sizes s)(this \<mapsto> the (sizes s this) + of_nat (length (v # vs)))"
    using sz m by (simp add: s3 fun_eq_iff add.assoc add.commute)
  show ?thesis
    unfolding appended_def using len f1 p1 v1 fr vp s1 by simp
qed

lemma Create_loop_step:
  assumes "ne it range_e" and "get s it = Some v" and "alloc s = Some a"
    and "prev \<noteq> 0" and "nodes s prev = Some pn" and "sizes s this = Some m"
    and "a \<noteq> prev"
    and "inc (s\<lparr>nodes := (nodes s)(a \<mapsto> \<lparr>val = v, next_node = 0\<rparr>, prev \<mapsto> pn\<lparr>next_node := a\<rparr>),
                    sizes := (sizes s)(this \<mapsto> m + 1)\<rparr>) it = Some it'"
  shows "Create_loop alloc ne get inc this s prev it range_e =
         Create_loop alloc ne get inc this
           (s\<lparr>nodes := (nodes s)(a \<mapsto> \<lparr>val = v, next_node = 0\<rparr>, prev \<mapsto> pn\<lparr>next_node := a\<rparr>),
                    sizes := (sizes s)(this \<mapsto> m + 1)\<rparr>) a it' range_e"
  using assms
  by (subst Create_loop.simps) (simp add: new_Node_def store_next_def load_def store_size_def)

lemma Create_loop_throw:
  assumes "ne it range_e" and "get s it = Some v" and "alloc s = None"
  shows "Create_loop alloc ne get inc this s prev it range_e = Some (Throw s)"
  using assms
  by (subst Create_loop.simps) (simp add: new_Node_def)

lemma Create_loop_done:
  assumes "\<not> ne it range_e"
  shows "Create_loop alloc ne get inc this s prev it range_e = Some (Return () s)"
  using assms
  by (subst Create_loop.simps) simp

lemma created_done:
  assumes "prev \<noteq> 0" and "nodes s prev = Some pn" and "next_node pn = 0"
    and "sizes s this = Some m"
  shows "created s this prev [] (Some (Return () s))"
  using appended_base [OF assms] by (auto simp: created_def)

lemma created_throw:
  assumes "prev \<noteq> 0" and "nodes s prev = Some pn" and "next_node pn = 0"
    and "sizes s this = Some m"
  shows "created s this prev (v # vs) (Some (Throw s))"
  unfolding created_def using appended_base [OF assms]
  by (auto intro!: exI [of _ 0] exI [of _ "[]"])

lemma created_step:
  assumes prev: "prev \<noteq> 0" "nodes s prev = Some pn"
    and a: "a \<noteq> 0" "nodes s a = None"
    and m: "sizes s this = Some m"
    and s3: "s3 = s\<lparr>nodes := (nodes s)(a \<mapsto> \<lparr>val = v, next_node = 0\<rparr>, prev \<mapsto> pn\<lparr>next_node := a\<rparr>),
                    sizes := (sizes s)(this \<mapsto> m + 1)\<rparr>"
    and cr: "created s3 this a vs r"
  shows "created s this prev (v # vs) r"
proof (cases r)
  case None
  with cr show ?thesis by (simp add: created_def)
next
  case (Some o1)
  show ?thesis
  proof (cases o1)
    case (Return u s')
    with cr Some obtain cs where "appended s3 s' this a cs vs"
      by (auto simp: created_def)
    from appended_step [OF prev a m s3 this] show ?thesis
      using Some Return by (auto simp: created_def)
  next
    case (Throw s')
    with cr Some obtain k cs where k: "k < length vs" "appended s3 s' this a cs (take k vs)"
      by (auto simp: created_def)
    from appended_step [OF prev a m s3 k(2)] have "appended s s' this prev (a # cs) (take (Suc k) (v # vs))"
      by simp
    with k(1) have "\<exists>j ds. j < length (v # vs) \<and> appended s s' this prev ds (take j (v # vs))"
      by (intro exI [of _ "Suc k"] exI [of _ "a # cs"]) simp
    then show ?thesis
      using Some Throw by (simp add: created_def del: take_Suc_Cons)
  next
    case UB
    with cr Some show ?thesis by (simp add: created_def)
  qed
qed

lemma Create_loop_array:
  assumes va: "valid_alloc alloc"
  shows "prev \<noteq> 0 \<Longrightarrow> nodes s prev = Some pn \<Longrightarrow> next_node pn = 0 \<Longrightarrow> sizes s this = Some m
    \<Longrightarrow> n = length values - i \<Longrightarrow> i \<le> length values
    \<Longrightarrow> created s this prev (drop i values)
         (Create_loop alloc (\<lambda>i j. i \<noteq> j) (array_get values) array_inc this s prev i (length values))"
proof (induction n arbitrary: s prev pn m i)
  case 0
  then have "i = length values" by simp
  with 0 show ?case
    by (simp add: Create_loop_done created_done)
next
  case (Suc n)
  then have i: "i < length values" by simp
  then have dr: "drop i values = values ! i # drop (Suc i) values"
    by (simp add: Cons_nth_drop_Suc)
  show ?case
  proof (cases "alloc s")
    case None
    with i have "Create_loop alloc (\<lambda>i j. i \<noteq> j) (array_get values) array_inc this s prev i (length values)
        = Some (Throw s)"
      by (intro Create_loop_throw [where v = "values ! i"]) (simp_all add: array_get_def)
    with Suc.prems show ?thesis
      by (simp add: dr created_throw)
  next
    case (Some a)
    with va have a: "a \<noteq> 0" "nodes s a = None"
      by (auto simp: valid_alloc_def)
    define s3 where "s3 = s\<lparr>nodes := (nodes s)(a \<mapsto> \<lparr>val = values ! i, next_node = 0\<rparr>,
                                       prev \<mapsto> pn\<lparr>next_node := a\<rparr>),
                    sizes := (sizes s)(this \<mapsto> m + 1)\<rparr>"
    have ap: "a \<noteq> prev"
      using a Suc.prems(2) by auto
    have st: "Create_loop alloc (\<lambda>i j. i \<noteq> j) (array_get values) array_inc this s prev i (length values)
        = Create_loop alloc (\<lambda>i j. i \<noteq> j) (array_get values) array_inc this s3 a (i + 1) (length values)"
      unfolding s3_def using i Some Suc.prems(1,2,4) ap
      by (intro Create_loop_step [where v = "values ! i"]) (simp_all add: array_get_def array_inc_def)
    have n3: "nodes s3 a = Some \<lparr>val = values ! i, next_node = 0\<rparr>"
      using ap by (simp add: s3_def)
    have m3: "sizes s3 this = Some (m + 1)"
      by (simp add: s3_def)
    have "created s3 this a (drop (i + 1) values)
         (Create_loop alloc (\<lambda>i j. i \<noteq> j) (array_get values) array_inc this s3 a (i + 1) (length values))"
      using a(1) n3 _ m3 by (rule Suc.IH) (use Suc.prems i in simp_all)
    from created_step [OF Suc.prems(1,2) a Suc.prems(4) s3_def this] show ?thesis
      by (simp add: st dr)
  qed
qed

lemma Create_loop_copy:
  assumes va: "valid_alloc alloc"
  shows "prev \<noteq> 0 \<Longrightarrow> nodes s prev = Some pn \<Longrightarrow> next_node pn = 0 \<Longrightarrow> sizes s this = Some m
    \<Longrightarrow> path (nodes s) q bs 0 \<Longrightarrow> prev \<notin> set bs
    \<Longrightarrow> created s this prev (vals s bs)
         (Create_loop alloc it_ne it_deref it_incr this s prev \<lparr>node = q\<rparr> \<lparr>node = 0\<rparr>)"
proof (induction bs arbitrary: s prev pn m q)
  case Nil
  then show ?case
    by (simp add: Create_loop_done created_done it_ne_def)
next
  case (Cons b bs)
  from Cons.prems(5) obtain bn where
    b: "q = b" "b \<noteq> 0" "nodes s b = Some bn" "path (nodes s) (next_node bn) bs 0"
    by (auto split: option.splits)
  have ne: "it_ne \<lparr>node = q\<rparr> \<lparr>node = 0\<rparr>"
    using b by (simp add: it_ne_def)
  have gt: "it_deref s \<lparr>node = q\<rparr> = Some (val bn)"
    using b by (simp add: it_deref_def load_def)
  show ?case
  proof (cases "alloc s")
    case None
    have "Create_loop alloc it_ne it_deref it_incr this s prev \<lparr>node = q\<rparr> \<lparr>node = 0\<rparr>
        = Some (Throw s)"
      using ne gt None by (rule Create_loop_throw)
    with Cons.prems show ?thesis
      using b by (simp add: created_throw)
  next
    case (Some a)
    with va have a: "a \<noteq> 0" "nodes s a = None"
      by (auto simp: valid_alloc_def)
    define s3 where "s3 = s\<lparr>nodes := (nodes s)(a \<mapsto> \<lparr>val = val bn, next_node = 0\<rparr>,
                                       prev \<mapsto> pn\<lparr>next_node := a\<rparr>),
                    sizes := (sizes s)(this \<mapsto> m + 1)\<rparr>"
    have ap: "a \<noteq> prev"
      using a Cons.prems(2) by auto
    have ab: "a \<notin> set (b # bs)"
      using path_live [OF Cons.prems(5), of a] a by auto
    have pb: "prev \<noteq> b" "prev \<notin> set bs"
      using Cons.prems(6) by auto
    have nb: "nodes s3 b = Some bn"
      using ab pb b by (auto simp: s3_def)
    have st: "Create_loop alloc it_ne it_deref it_incr this s prev \<lparr>node = q\<rparr> \<lparr>node = 0\<rparr>
        = Create_loop alloc it_ne it_deref it_incr this s3 a \<lparr>node = next_node bn\<rparr> \<lparr>node = 0\<rparr>"
      unfolding s3_def
      using ne gt Some Cons.prems(1,2,4) ap nb [unfolded s3_def] b
      by (intro Create_loop_step [where v = "val bn"]) (simp_all add: it_incr_def load_def)
    have pth: "path (nodes s3) (next_node bn) bs 0"
      using b(4) ab pb by (simp add: s3_def)
    have vs: "vals s3 bs = vals s bs"
      by (rule vals_cong) (use ab pb in \<open>auto simp: s3_def\<close>)
    have n3: "nodes s3 a = Some \<lparr>val = val bn, next_node = 0\<rparr>"
      using ap by (simp add: s3_def)
    have m3: "sizes s3 this = Some (m + 1)"
      by (simp add: s3_def)
    have abs: "a \<notin> set bs"
      using ab by simp
    have "created s3 this a (vals s3 bs)
         (Create_loop alloc it_ne it_deref it_incr this s3 a \<lparr>node = next_node bn\<rparr> \<lparr>node = 0\<rparr>)"
      using a(1) n3 _ m3 pth abs by (rule Cons.IH) simp
    from created_step [OF Cons.prems(1,2) a Cons.prems(4) s3_def this] show ?thesis
      unfolding st using b by (simp add: vs)
  qed
qed

section \<open>Clear, the end of a scope, swap\<close>

lemma Clear_loop_list:
  assumes "path (nodes s) this (this # as) 0" and "nodes s this = Some n"
  shows "Clear_loop s this = Some (Return ()
           (s\<lparr>nodes := (\<lambda>x. if x \<in> set as then None
                             else if x = this then Some (n\<lparr>next_node := 0\<rparr>)
                             else nodes s x)\<rparr>))"
  using assms
proof (induction as arbitrary: s n)
  case Nil
  then have nx: "next_node n = 0" "this \<noteq> 0"
    by auto
  then have nn: "n\<lparr>next_node := 0\<rparr> = n"
    by (cases n) simp
  have eq: "s\<lparr>nodes := (\<lambda>x. if x \<in> set [] then None
                             else if x = this then Some (n\<lparr>next_node := 0\<rparr>)
                             else nodes s x)\<rparr> = s"
    unfolding nn using Nil.prems(2) by (cases s) (auto simp: fun_eq_iff)
  have "Clear_loop s this = Some (Return () s)"
    using nx Nil.prems(2) by (subst Clear_loop.simps) (simp add: load_def)
  then show ?case
    unfolding eq .
next
  case (Cons a as)
  from Cons.prems obtain f where
    f: "this \<noteq> 0" "next_node n = a" "a \<noteq> 0" "nodes s a = Some f" "path (nodes s) (next_node f) as 0"
    by (auto split: option.splits)
  have d: "distinct (this # a # as)"
    using Cons.prems(1) by (rule path_distinct)
  define s2 where "s2 = s\<lparr>nodes := ((nodes s)(a := None))(this \<mapsto> n\<lparr>next_node := next_node f\<rparr>)\<rparr>"
  have st: "Clear_loop s this = Clear_loop s2 this"
    using f d Cons.prems(2)
    by (subst Clear_loop.simps) (simp add: load_def delete_Node_def store_next_def s2_def)
  have p2: "path (nodes s2) this (this # as) 0"
    using f d by (simp add: s2_def)
  have n2: "nodes s2 this = Some (n\<lparr>next_node := next_node f\<rparr>)"
    by (simp add: s2_def)
  have eq: "s2\<lparr>nodes := (\<lambda>x. if x \<in> set as then None
                             else if x = this then Some (n\<lparr>next_node := next_node f\<rparr>\<lparr>next_node := 0\<rparr>)
                             else nodes s2 x)\<rparr>
       = s\<lparr>nodes := (\<lambda>x. if x \<in> set (a # as) then None
                             else if x = this then Some (n\<lparr>next_node := 0\<rparr>)
                             else nodes s x)\<rparr>"
    using d by (auto simp: s2_def fun_eq_iff)
  show ?case
    unfolding st Cons.IH [OF p2 n2] eq ..
qed

lemma Clear_list:
  assumes "list_at s this as"
  shows "\<exists>s'. Clear s this = Some (Return () s')
           \<and> list_at s' this []
           \<and> (\<forall>x. x \<notin> set (this # as) \<longrightarrow> nodes s' x = nodes s x)
           \<and> (\<forall>x \<in> set as. nodes s' x = None)
           \<and> map_option val (nodes s' this) = map_option val (nodes s this)
           \<and> sizes s' = (sizes s)(this \<mapsto> 0)"
proof -
  from assms obtain n where n: "this \<noteq> 0" "nodes s this = Some n"
    by (rule list_at_head)
  from assms obtain m where m: "sizes s this = Some m"
    by (rule list_at_size)
  have p: "path (nodes s) this (this # as) 0"
    using assms by (simp add: list_at_def)
  have d: "distinct (this # as)"
    using p by (rule path_distinct)
  show ?thesis
    using n m d
    by (simp add: Clear_def Clear_loop_list [OF p n(2)] store_size_def list_at_def)
qed

lemma leave_scope_list:
  assumes "list_at s this as"
  shows "\<exists>s'. leave_scope s this = Some (Return () s')
           \<and> (\<forall>x. x \<notin> set (this # as) \<longrightarrow> nodes s' x = nodes s x)
           \<and> (\<forall>x \<in> set (this # as). nodes s' x = None)
           \<and> sizes s' = (sizes s)(this := None)"
proof -
  from Clear_list [OF assms] obtain s1 where
    s1: "Clear s this = Some (Return () s1)"
      "\<forall>x. x \<notin> set (this # as) \<longrightarrow> nodes s1 x = nodes s x"
      "\<forall>x \<in> set as. nodes s1 x = None"
      "sizes s1 = (sizes s)(this \<mapsto> 0)"
    by blast
  then show ?thesis
    by (auto simp: leave_scope_def destructor_def release_def fun_eq_iff)
qed

lemma swap_lists:
  assumes l1: "list_at s this as" and l2: "list_at s other bs"
    and sep: "this \<notin> set bs" "other \<notin> set as"
  shows "\<exists>s'. swap s this other = Return () s'
           \<and> list_at s' this bs \<and> list_at s' other as
           \<and> (\<forall>x. x \<noteq> this \<and> x \<noteq> other \<longrightarrow> nodes s' x = nodes s x)
           \<and> map_option val (nodes s' this) = map_option val (nodes s this)
           \<and> map_option val (nodes s' other) = map_option val (nodes s other)
           \<and> (\<forall>x. x \<noteq> this \<and> x \<noteq> other \<longrightarrow> sizes s' x = sizes s x)"
proof -
  from l1 obtain n where n: "this \<noteq> 0" "nodes s this = Some n" "path (nodes s) (next_node n) as 0"
    by (rule list_at_head)
  from l2 obtain k where k: "other \<noteq> 0" "nodes s other = Some k" "path (nodes s) (next_node k) bs 0"
    by (rule list_at_head)
  from l1 obtain m where m: "sizes s this = Some m" "unat m = length as"
    by (rule list_at_size)
  from l2 obtain j where j: "sizes s other = Some j" "unat j = length bs"
    by (rule list_at_size)
  have d1: "this \<notin> set as" and d2: "other \<notin> set bs"
    using list_at_distinct [OF l1] list_at_distinct [OF l2] by auto
  show ?thesis
  proof (cases "this = other")
    case True
    with n k have nk: "k = n" by simp
    have ab: "as = bs"
      using n(3) k(3) unfolding nk by (rule path_unique)
    have "s\<lparr>nodes := (nodes s)(other \<mapsto> n), sizes := (sizes s)(other \<mapsto> m)\<rparr> = s"
      using n m True by (cases s) (auto simp: fun_eq_iff)
    then have "swap s this other = Return () s"
      using n m True by (simp add: swap_def load_def store_next_def store_size_def)
    with l1 l2 ab show ?thesis
      by simp
  next
    case False
    define s' where "s' = s\<lparr>nodes := (nodes s)(this \<mapsto> n\<lparr>next_node := next_node k\<rparr>,
                                       other \<mapsto> k\<lparr>next_node := next_node n\<rparr>),
                           sizes := (sizes s)(this \<mapsto> j, other \<mapsto> m)\<rparr>"
    have ev: "swap s this other = Return () s'"
      using n k m j False
      by (simp add: swap_def load_def store_next_def store_size_def s'_def)
    have p1: "path (nodes s') (next_node k) bs 0"
      using k(3) sep(1) d2 by (simp add: s'_def)
    have p2: "path (nodes s') (next_node n) as 0"
      using n(3) sep(2) d1 by (simp add: s'_def)
    have "list_at s' this bs" "list_at s' other as"
      using p1 p2 n k m j False by (simp_all add: list_at_def s'_def)
    with ev n k False show ?thesis
      by (intro exI [of _ s']) (simp add: s'_def)
  qed
qed

section \<open>The constructors and the assignment\<close>

lemma state_eqI:
  fixes s t :: "'a state"
  assumes "nodes s = nodes t" and "sizes s = sizes t"
  shows "s = t"
  using assms by (cases s, cases t) simp

lemma list_at_frame:
  assumes "list_at s this as"
    and "\<And>x. x \<in> set (this # as) \<Longrightarrow> nodes s' x = nodes s x"
    and "sizes s' this = sizes s this"
  shows "list_at s' this as \<and> vals s' as = vals s as"
proof -
  have "path (nodes s') p bs q = path (nodes s) p bs q" if "set bs \<subseteq> set (this # as)" for p bs q
    using that
  proof (induction bs arbitrary: p)
    case Nil
    show ?case by simp
  next
    case (Cons b bs)
    then have "nodes s' b = nodes s b"
      using assms(2) by auto
    with Cons show ?case
      by (auto split: option.splits)
  qed
  from this [of "this # as" this 0] assms(1,3) have "list_at s' this as"
    by (simp add: list_at_def)
  moreover have "vals s' as = vals s as"
    by (rule vals_cong) (use assms(2) in auto)
  ultimately show ?thesis ..
qed

lemma unat_of_nat_addr:
  fixes cs :: "addr list"
  assumes "distinct (x # cs)"
  shows "unat (of_nat (length cs) :: size_t) = length cs"
proof -
  from distinct_addr_length [OF assms] have "length cs < 2 ^ 64"
    by simp
  then show ?thesis
    by (simp add: unat_of_nat)
qed

lemma appended_list:
  assumes ap: "appended s s' this this cs vs" and sz: "sizes s this = Some 0"
  shows "list_at s' this cs"
proof -
  from ap have p: "path (nodes s') this (this # cs) 0" and len: "length cs = length vs"
    and s': "sizes s' = (sizes s)(this \<mapsto> the (sizes s this) + of_nat (length vs))"
    by (simp_all add: appended_def)
  from path_distinct [OF p] have "unat (of_nat (length cs) :: size_t) = length cs"
    by (rule unat_of_nat_addr)
  with p s' sz len show ?thesis
    by (simp add: list_at_def)
qed

lemma construct_from_created:
  assumes v1: "vacant s this" and v2: "vacant s tmp" and ne: "this \<noteq> tmp"
    and cr: "created (SingleLinkedList_default T0 (SingleLinkedList_default T0 s this) tmp) tmp tmp vs
               (Create alloc ne get inc
                 (SingleLinkedList_default T0 (SingleLinkedList_default T0 s this) tmp) tmp b e)"
  shows "case construct_from alloc ne get inc T0 tmp s this b e of
           None \<Rightarrow> False
         | Some (Return u s') \<Rightarrow> (\<exists>cs. constructed s s' this cs vs)
         | Some (Throw s') \<Rightarrow> s' = s
         | Some UB \<Rightarrow> False"
proof -
  define s0 where "s0 = SingleLinkedList_default T0 s this"
  define s1 where "s1 = SingleLinkedList_default T0 s0 tmp"
  define r where "r = Create alloc ne get inc s1 tmp b e"
  from v1 v2 have z: "this \<noteq> 0" "tmp \<noteq> 0" "nodes s this = None" "sizes s this = None"
    "nodes s tmp = None" "sizes s tmp = None"
    by (simp_all add: vacant_def)
  have cf: "construct_from alloc ne get inc T0 tmp s this b e =
     (case r of
           None \<Rightarrow> None
         | Some UB \<Rightarrow> Some UB
         | Some (Throw s2) \<Rightarrow>
            (case leave_scope s2 tmp of
               None \<Rightarrow> None
             | Some (Return u s3) \<Rightarrow> Some (Throw (release s3 this))
             | Some (Throw s3) \<Rightarrow> Some UB
             | Some UB \<Rightarrow> Some UB)
         | Some (Return u s2) \<Rightarrow>
            (case swap s2 this tmp of
               UB \<Rightarrow> Some UB
             | Throw s3 \<Rightarrow> Some UB
             | Return u s3 \<Rightarrow> leave_scope s3 tmp))"
    using z by (simp add: construct_from_def Let_def r_def s1_def s0_def
        SingleLinkedList_default_def load_def)
  have n1: "nodes s1 = (nodes s)(this \<mapsto> \<lparr>val = T0, next_node = 0\<rparr>, tmp \<mapsto> \<lparr>val = T0, next_node = 0\<rparr>)"
    and m1: "sizes s1 = (sizes s)(this \<mapsto> 0, tmp \<mapsto> 0)"
    by (simp_all add: s1_def s0_def SingleLinkedList_default_def)
  have live1: "nodes s1 this \<noteq> None" "nodes s1 tmp \<noteq> None"
    by (simp_all add: n1)
  from cr have cr': "created s1 tmp tmp vs r"
    by (simp add: s0_def s1_def r_def)
  show ?thesis
  proof (cases r)
    case None
    with cr' show ?thesis by (simp add: created_def)
  next
    case (Some o1)
    show ?thesis
    proof (cases o1)
      case UB
      with cr' Some show ?thesis by (simp add: created_def)
    next
      case (Return u s2)
      with cr' Some obtain cs where ap: "appended s1 s2 tmp tmp cs vs"
        by (auto simp: created_def)
      then have fr: "\<forall>c \<in> set cs. nodes s1 c = None"
        and p2: "path (nodes s2) tmp (tmp # cs) 0"
        and vs: "vals s2 cs = vs"
        and f2: "\<forall>x. x \<notin> set (tmp # cs) \<longrightarrow> nodes s2 x = nodes s1 x"
        and m2: "sizes s2 = (sizes s1)(tmp \<mapsto> the (sizes s1 tmp) + of_nat (length vs))"
        by (simp_all add: appended_def)
      have tcs: "this \<notin> set cs" "tmp \<notin> set cs"
        using fr live1 by auto
      have frs: "\<forall>c \<in> set cs. nodes s c = None"
        using fr tcs by (auto simp: n1 split: if_splits)
      have lt: "list_at s2 tmp cs"
        using ap by (rule appended_list) (simp add: m1)
      have lth: "list_at s2 this []"
        using f2 tcs ne z by (simp add: list_at_def n1 m2 m1)
      from swap_lists [OF lth lt] tcs obtain s3 where
        s3: "swap s2 this tmp = Return () s3" "list_at s3 this cs" "list_at s3 tmp []"
          "\<forall>x. x \<noteq> this \<and> x \<noteq> tmp \<longrightarrow> nodes s3 x = nodes s2 x"
          "\<forall>x. x \<noteq> this \<and> x \<noteq> tmp \<longrightarrow> sizes s3 x = sizes s2 x"
        by auto
      from leave_scope_list [OF s3(3)] obtain s4 where
        s4: "leave_scope s3 tmp = Some (Return () s4)"
          "\<forall>x. x \<notin> set [tmp] \<longrightarrow> nodes s4 x = nodes s3 x"
          "nodes s4 tmp = None"
          "sizes s4 = (sizes s3)(tmp := None)"
        by auto
      have l4: "list_at s4 this cs \<and> vals s4 cs = vals s3 cs"
        using s3(2) by (rule list_at_frame) (use s4 tcs ne in auto)
      have v3: "vals s3 cs = vals s2 cs"
        by (rule vals_cong) (use s3(4) tcs in auto)
      have f4: "\<forall>x. x \<notin> set (this # cs) \<longrightarrow> nodes s4 x = nodes s x"
      proof (intro allI impI)
        fix x assume x: "x \<notin> set (this # cs)"
        show "nodes s4 x = nodes s x"
        proof (cases "x = tmp")
          case True
          with s4(3) z show ?thesis by simp
        next
          case False
          with x s4(2) s3(4) f2 show ?thesis
            by (simp add: n1)
        qed
      qed
      have m4: "\<forall>x. x \<noteq> this \<longrightarrow> sizes s4 x = sizes s x"
        using s4(4) s3(5) z by (auto simp: m2 m1)
      have "constructed s s4 this cs vs"
        unfolding constructed_def using l4 v3 vs frs f4 m4 by simp
      then show ?thesis
        using Some Return s3(1) s4(1) by (auto simp: cf)
    next
      case (Throw s2)
      with cr' Some obtain k cs where ap: "appended s1 s2 tmp tmp cs (take k vs)"
        by (auto simp: created_def)
      then have fr: "\<forall>c \<in> set cs. nodes s1 c = None"
        and f2: "\<forall>x. x \<notin> set (tmp # cs) \<longrightarrow> nodes s2 x = nodes s1 x"
        and m2: "sizes s2 = (sizes s1)(tmp \<mapsto> the (sizes s1 tmp) + of_nat (length (take k vs)))"
        by (simp_all add: appended_def)
      have tcs: "this \<notin> set cs" "tmp \<notin> set cs"
        using fr live1 by auto
      have frs: "\<forall>c \<in> set cs. nodes s c = None"
        using fr tcs by (auto simp: n1 split: if_splits)
      have lt: "list_at s2 tmp cs"
        using ap by (rule appended_list) (simp add: m1)
      from leave_scope_list [OF lt] obtain s3 where
        s3: "leave_scope s2 tmp = Some (Return () s3)"
          "\<forall>x. x \<notin> set (tmp # cs) \<longrightarrow> nodes s3 x = nodes s2 x"
          "\<forall>x \<in> set (tmp # cs). nodes s3 x = None"
          "sizes s3 = (sizes s2)(tmp := None)"
        by auto
      have "nodes (release s3 this) x = nodes s x" for x
        using s3(2,3) f2 frs z by (cases "x \<in> set (tmp # cs)") (auto simp: release_def n1)
      moreover have "sizes (release s3 this) x = sizes s x" for x
        using s3(4) z by (auto simp: release_def m2 m1)
      ultimately have "release s3 this = s"
        by (intro state_eqI) (auto simp: fun_eq_iff)
      then show ?thesis
        using Some Throw s3(1) by (simp add: cf)
    qed
  qed
qed

lemma SingleLinkedList_values_list:
  assumes va: "valid_alloc alloc"
    and v1: "vacant s this" and v2: "vacant s tmp" and ne: "this \<noteq> tmp"
  shows "case SingleLinkedList_values alloc T0 tmp s this values of
           None \<Rightarrow> False
         | Some (Return u s') \<Rightarrow> (\<exists>cs. constructed s s' this cs values)
         | Some (Throw s') \<Rightarrow> s' = s
         | Some UB \<Rightarrow> False"
proof -
  define s1 where "s1 = SingleLinkedList_default T0 (SingleLinkedList_default T0 s this) tmp"
  have t: "tmp \<noteq> 0"
    using v2 by (simp add: vacant_def)
  have n: "nodes s1 tmp = Some \<lparr>val = T0, next_node = 0\<rparr>" and m: "sizes s1 tmp = Some 0"
    by (simp_all add: s1_def SingleLinkedList_default_def)
  from Create_loop_array [OF va t n _ m refl, of 0 "values"]
  have "created s1 tmp tmp values
         (Create alloc (\<lambda>i j. i \<noteq> j) (array_get values) array_inc s1 tmp 0 (length values))"
    by (simp add: Create_def)
  then have cr: "created (SingleLinkedList_default T0 (SingleLinkedList_default T0 s this) tmp)
         tmp tmp values
         (Create alloc (\<lambda>i j. i \<noteq> j) (array_get values) array_inc
           (SingleLinkedList_default T0 (SingleLinkedList_default T0 s this) tmp)
           tmp 0 (length values))"
    unfolding s1_def .
  from construct_from_created [OF v1 v2 ne cr] show ?thesis
    by (simp add: SingleLinkedList_values_def)
qed

lemma SingleLinkedList_copy_list:
  assumes va: "valid_alloc alloc"
    and v1: "vacant s this" and v2: "vacant s tmp" and ne: "this \<noteq> tmp"
    and l: "list_at s other bs"
  shows "case SingleLinkedList_copy alloc T0 tmp s this other of
           None \<Rightarrow> False
         | Some (Return u s') \<Rightarrow>
             (\<exists>cs. constructed s s' this cs (vals s bs)
                   \<and> set (this # cs) \<inter> set (other # bs) = {})
         | Some (Throw s') \<Rightarrow> s' = s
         | Some UB \<Rightarrow> False"
proof -
  define s1 where "s1 = SingleLinkedList_default T0 (SingleLinkedList_default T0 s this) tmp"
  have t: "tmp \<noteq> 0"
    using v2 by (simp add: vacant_def)
  have n: "nodes s1 tmp = Some \<lparr>val = T0, next_node = 0\<rparr>" and m: "sizes s1 tmp = Some 0"
    by (simp_all add: s1_def SingleLinkedList_default_def)
  have out: "this \<notin> set (other # bs)" "tmp \<notin> set (other # bs)"
    using list_at_live [OF l, of this] list_at_live [OF l, of tmp] v1 v2
    by (auto simp: vacant_def)
  have "list_at s1 other bs \<and> vals s1 bs = vals s bs"
    using l by (rule list_at_frame) (use out in \<open>auto simp: s1_def SingleLinkedList_default_def\<close>)
  then have l1: "list_at s1 other bs" and vs: "vals s1 bs = vals s bs"
    by simp_all
  from l1 obtain k where k: "other \<noteq> 0" "nodes s1 other = Some k" "path (nodes s1) (next_node k) bs 0"
    by (rule list_at_head)
  have b: "list_begin s1 other = Some \<lparr>node = next_node k\<rparr>"
    using k by (simp add: list_begin_def load_def)
  from Create_loop_copy [OF va t n _ m k(3)] out
  have "created s1 tmp tmp (vals s bs)
         (Create alloc it_ne it_deref it_incr s1 tmp \<lparr>node = next_node k\<rparr> (list_end other))"
    by (simp add: Create_def list_end_def vs)
  then have cr: "created (SingleLinkedList_default T0 (SingleLinkedList_default T0 s this) tmp)
         tmp tmp (vals s bs)
         (Create alloc it_ne it_deref it_incr
           (SingleLinkedList_default T0 (SingleLinkedList_default T0 s this) tmp)
           tmp \<lparr>node = next_node k\<rparr> (list_end other))"
    unfolding s1_def .
  from construct_from_created [OF v1 v2 ne cr]
  have c: "case SingleLinkedList_copy alloc T0 tmp s this other of
           None \<Rightarrow> False
         | Some (Return u s') \<Rightarrow> (\<exists>cs. constructed s s' this cs (vals s bs))
         | Some (Throw s') \<Rightarrow> s' = s
         | Some UB \<Rightarrow> False"
    using b by (simp add: SingleLinkedList_copy_def s1_def)
  have "set (this # cs) \<inter> set (other # bs) = {}" if "constructed s s' this cs (vals s bs)" for s' cs
  proof -
    from that have "\<forall>c \<in> set cs. nodes s c = None"
      by (simp add: constructed_def)
    with list_at_live [OF l] have "set cs \<inter> set (other # bs) = {}"
      by blast
    with out show ?thesis by auto
  qed
  with c show ?thesis
    by (auto split: option.splits outcome.splits)
qed

lemma operator_assign_list:
  assumes va: "valid_alloc alloc"
    and v1: "vacant s cp" and v2: "vacant s tmp" and ne: "cp \<noteq> tmp"
    and lt: "list_at s this as" and lr: "list_at s rhs bs"
  shows "case operator_assign alloc T0 cp tmp s this rhs of
           None \<Rightarrow> False
         | Some (Return u s') \<Rightarrow>
             (\<exists>cs. list_at s' this cs \<and> vals s' cs = vals s bs
                   \<and> (\<forall>c \<in> set cs. nodes s c = None)
                   \<and> (\<forall>x \<in> set as. nodes s' x = None)
                   \<and> (\<forall>x. x \<notin> set (this # as) \<union> set cs \<longrightarrow> nodes s' x = nodes s x)
                   \<and> (\<forall>x. x \<noteq> this \<longrightarrow> sizes s' x = sizes s x))
         | Some (Throw s') \<Rightarrow> s' = s
         | Some UB \<Rightarrow> False"
proof -
  define r where "r = SingleLinkedList_copy alloc T0 tmp s cp rhs"
  note cp = SingleLinkedList_copy_list [OF va v1 v2 ne lr, of T0, folded r_def]
  have oa: "operator_assign alloc T0 cp tmp s this rhs =
     (case r of
        None \<Rightarrow> None
      | Some UB \<Rightarrow> Some UB
      | Some (Throw s1) \<Rightarrow> Some (Throw s1)
      | Some (Return u s1) \<Rightarrow>
         (case swap s1 this cp of
            UB \<Rightarrow> Some UB
          | Throw s2 \<Rightarrow> Some UB
          | Return u s2 \<Rightarrow> leave_scope s2 cp))"
    by (simp add: operator_assign_def r_def)
  show ?thesis
  proof (cases r)
    case None
    with cp show ?thesis by simp
  next
    case (Some o1)
    show ?thesis
    proof (cases o1)
      case UB
      with cp Some show ?thesis by simp
    next
      case (Throw s1)
      with cp Some show ?thesis by (simp add: oa)
    next
      case (Return u s1)
      with cp Some obtain cs where c: "constructed s s1 cp cs (vals s bs)"
        by auto
      then have l1: "list_at s1 cp cs" and vs: "vals s1 cs = vals s bs"
        and fr: "\<forall>c \<in> set cs. nodes s c = None"
        and f1: "\<forall>x. x \<notin> set (cp # cs) \<longrightarrow> nodes s1 x = nodes s x"
        and m1: "\<forall>x. x \<noteq> cp \<longrightarrow> sizes s1 x = sizes s x"
        by (simp_all add: constructed_def)
      have z: "cp \<noteq> 0" "nodes s cp = None" "sizes s cp = None"
        using v1 by (simp_all add: vacant_def)
      have live: "\<And>x. x \<in> set (this # as) \<Longrightarrow> nodes s x \<noteq> None"
        using list_at_live [OF lt] by blast
      have out: "cp \<notin> set (this # as)" "set cs \<inter> set (this # as) = {}"
        using live z(2) fr by (blast, blast)
      have d: "distinct (this # as)"
        using lt by (rule list_at_distinct)
      have "list_at s1 this as \<and> vals s1 as = vals s as"
        using lt by (rule list_at_frame) (use out f1 m1 in auto)
      then have lt1: "list_at s1 this as"
        by simp
      have sep: "this \<notin> set cs" "cp \<notin> set as"
        using out by auto
      from swap_lists [OF lt1 l1 sep] obtain s2 where
        s2: "swap s1 this cp = Return () s2" "list_at s2 this cs" "list_at s2 cp as"
          "\<forall>x. x \<noteq> this \<and> x \<noteq> cp \<longrightarrow> nodes s2 x = nodes s1 x"
          "\<forall>x. x \<noteq> this \<and> x \<noteq> cp \<longrightarrow> sizes s2 x = sizes s1 x"
        by auto
      from leave_scope_list [OF s2(3)] obtain s3 where
        s3: "leave_scope s2 cp = Some (Return () s3)"
          "\<forall>x. x \<notin> set (cp # as) \<longrightarrow> nodes s3 x = nodes s2 x"
          "\<forall>x \<in> set (cp # as). nodes s3 x = None"
          "sizes s3 = (sizes s2)(cp := None)"
        by auto
      have dcs: "distinct (cp # cs)"
        using l1 by (rule list_at_distinct)
      have l3: "list_at s3 this cs \<and> vals s3 cs = vals s2 cs"
        using s2(2) by (rule list_at_frame) (use s3 out d dcs in auto)
      have v2: "vals s2 cs = vals s1 cs"
        by (rule vals_cong) (use s2(4) sep dcs in auto)
      have f3: "\<forall>x. x \<notin> set (this # as) \<union> set cs \<longrightarrow> nodes s3 x = nodes s x"
      proof (intro allI impI)
        fix x assume x: "x \<notin> set (this # as) \<union> set cs"
        show "nodes s3 x = nodes s x"
        proof (cases "x = cp")
          case True
          with s3(3) z show ?thesis by simp
        next
          case False
          with x s3(2) s2(4) f1 show ?thesis
            by simp
        qed
      qed
      have m3: "\<forall>x. x \<noteq> this \<longrightarrow> sizes s3 x = sizes s x"
        using s3(4) s2(5) m1 z by auto
      have "list_at s3 this cs \<and> vals s3 cs = vals s bs
                   \<and> (\<forall>c \<in> set cs. nodes s c = None)
                   \<and> (\<forall>x \<in> set as. nodes s3 x = None)
                   \<and> (\<forall>x. x \<notin> set (this # as) \<union> set cs \<longrightarrow> nodes s3 x = nodes s x)
                   \<and> (\<forall>x. x \<noteq> this \<longrightarrow> sizes s3 x = sizes s x)"
        using l3 v2 vs fr s3(3) f3 m3 by simp
      then show ?thesis
        using Some Return s2(1) s3(1) by (auto simp: oa)
    qed
  qed
qed

lemma other_list_kept:
  assumes "list_at s other bs"
    and "\<And>x. x \<in> set (other # bs) \<Longrightarrow> nodes s' x = nodes s x"
    and "sizes s' other = sizes s other"
  shows "list_at s' other bs \<and> items s' other = Some (Some (vals s bs))
         \<and> GetSize s' other = GetSize s other"
proof -
  from list_at_frame [OF assms] have "list_at s' other bs" "vals s' bs = vals s bs"
    by simp_all
  with items_list [of s' other bs] assms(3) show ?thesis
    by (simp add: GetSize_def)
qed

section \<open>The invariant under each operation\<close>

lemma invariantI: "list_at s this as \<Longrightarrow> invariant s this"
  unfolding invariant_def using list_at_distinct by blast

lemma invariantE:
  assumes "invariant s this"
  obtains as where "list_at s this as"
  using assms by (auto simp: invariant_def)

lemma inv_default:
  assumes "new \<noteq> 0"
  shows "invariant (SingleLinkedList_default T0 s new) new"
  by (rule invariantI [of _ _ "[]"]) (use assms in \<open>simp add: list_at_def SingleLinkedList_default_def\<close>)

lemma inv_values:
  assumes "valid_alloc alloc" and "vacant s new" and "vacant s tmp" and "new \<noteq> tmp"
  shows "case SingleLinkedList_values alloc T0 tmp s new vs of
           None \<Rightarrow> False
         | Some (Return u s') \<Rightarrow> invariant s' new
         | Some (Throw s') \<Rightarrow> s' = s
         | Some UB \<Rightarrow> False"
proof -
  have "case SingleLinkedList_values alloc T0 tmp s new vs of
           None \<Rightarrow> False
         | Some (Return u s') \<Rightarrow> (\<exists>cs. constructed s s' new cs vs)
         | Some (Throw s') \<Rightarrow> s' = s
         | Some UB \<Rightarrow> False"
    by (rule SingleLinkedList_values_list [OF assms])
  then show ?thesis
    by (auto simp: constructed_def intro: invariantI split: option.splits outcome.splits)
qed

lemma inv_copy:
  assumes "valid_alloc alloc" and "vacant s new" and "vacant s tmp" and "new \<noteq> tmp"
    and "invariant s this"
  shows "case SingleLinkedList_copy alloc T0 tmp s new this of
           None \<Rightarrow> False
         | Some (Return u s') \<Rightarrow> invariant s' new \<and> invariant s' this
         | Some (Throw s') \<Rightarrow> s' = s
         | Some UB \<Rightarrow> False"
proof -
  from assms(5) obtain as where l: "list_at s this as"
    by (rule invariantE)
  have "invariant s' new \<and> invariant s' this"
    if c: "constructed s s' new cs (vals s as)" and dj: "set (new # cs) \<inter> set (this # as) = {}"
    for s' cs
  proof -
    from c have ln: "list_at s' new cs"
      and f: "\<forall>x. x \<notin> set (new # cs) \<longrightarrow> nodes s' x = nodes s x"
      and m: "\<forall>x. x \<noteq> new \<longrightarrow> sizes s' x = sizes s x"
      by (simp_all add: constructed_def)
    have "list_at s' this as \<and> vals s' as = vals s as"
      by (rule list_at_frame [OF l]) (use f m dj in auto)
    then have "list_at s' this as"
      by simp
    with ln show ?thesis
      by (simp add: invariantI)
  qed
  moreover have "case SingleLinkedList_copy alloc T0 tmp s new this of
           None \<Rightarrow> False
         | Some (Return u s') \<Rightarrow>
             (\<exists>cs. constructed s s' new cs (vals s as)
                   \<and> set (new # cs) \<inter> set (this # as) = {})
         | Some (Throw s') \<Rightarrow> s' = s
         | Some UB \<Rightarrow> False"
    by (rule SingleLinkedList_copy_list [OF assms(1-4) l])
  ultimately show ?thesis
    by (auto split: option.splits outcome.splits)
qed

lemma inv_assign:
  assumes "valid_alloc alloc" and "vacant s cp" and "vacant s tmp" and "cp \<noteq> tmp"
    and "invariant s this" and "invariant s other"
  shows "case operator_assign alloc T0 cp tmp s this other of
           None \<Rightarrow> False
         | Some (Return u s') \<Rightarrow> invariant s' this
         | Some (Throw s') \<Rightarrow> s' = s
         | Some UB \<Rightarrow> False"
proof -
  from assms(5) obtain as where l: "list_at s this as"
    by (rule invariantE)
  from assms(6) obtain bs where r: "list_at s other bs"
    by (rule invariantE)
  have "case operator_assign alloc T0 cp tmp s this other of
           None \<Rightarrow> False
         | Some (Return u s') \<Rightarrow>
             (\<exists>cs. list_at s' this cs \<and> vals s' cs = vals s bs
                   \<and> (\<forall>c \<in> set cs. nodes s c = None)
                   \<and> (\<forall>x \<in> set as. nodes s' x = None)
                   \<and> (\<forall>x. x \<notin> set (this # as) \<union> set cs \<longrightarrow> nodes s' x = nodes s x)
                   \<and> (\<forall>x. x \<noteq> this \<longrightarrow> sizes s' x = sizes s x))
         | Some (Throw s') \<Rightarrow> s' = s
         | Some UB \<Rightarrow> False"
    by (rule operator_assign_list [OF assms(1-4) l r])
  then show ?thesis
    by (auto intro: invariantI split: option.splits outcome.splits)
qed

lemma inv_InsertAfter:
  assumes "valid_alloc alloc" and "list_at s this as" and "p \<in> set (this # as)"
  shows "case InsertAfter alloc s this \<lparr>node = p\<rparr> v of
           Return it s' \<Rightarrow> invariant s' this
         | Throw s' \<Rightarrow> s' = s
         | UB \<Rightarrow> False"
proof (cases "alloc s")
  case None
  from list_at_live [OF assms(2,3)] obtain n where n: "p \<noteq> 0" "nodes s p = Some n"
    by auto
  from assms(2) obtain m where m: "sizes s this = Some m"
    by (rule list_at_size)
  from InsertAfter_eval [OF n m, of alloc v] None show ?thesis
    by simp
next
  case (Some a)
  from split_list [OF assms(3)] obtain pre post where "this # as = pre @ p # post"
    by blast
  from InsertAfter_split [OF assms(1,2) this Some, of v] show ?thesis
    by (auto intro: invariantI)
qed

lemma inv_PushFront:
  assumes "valid_alloc alloc" and "invariant s this"
  shows "case PushFront alloc s this v of
           Return u s' \<Rightarrow> invariant s' this
         | Throw s' \<Rightarrow> s' = s
         | UB \<Rightarrow> False"
proof -
  from assms(2) obtain as where l: "list_at s this as"
    by (rule invariantE)
  from PushFront_list [OF assms(1) l, of v] show ?thesis
    by (auto intro: invariantI split: outcome.splits)
qed

lemma inv_EraseAfter:
  assumes "list_at s this as" and "i < length as"
  shows "case EraseAfter s this \<lparr>node = (this # as) ! i\<rparr> of
           Return it s' \<Rightarrow> invariant s' this
         | Throw s' \<Rightarrow> False
         | UB \<Rightarrow> False"
  using EraseAfter_index [OF assms] by (auto intro: invariantI)

lemma nonempty_list:
  assumes "list_at s this as" and "IsEmpty s this = Some b"
  shows "b \<longleftrightarrow> as = []"
proof -
  from assms(1) obtain n where n: "this \<noteq> 0" "nodes s this = Some n" "path (nodes s) (next_node n) as 0"
    by (rule list_at_head)
  with assms(2) show ?thesis
    by (cases as) (auto simp: IsEmpty_def load_def split: option.splits)
qed

lemma inv_PopFront:
  assumes "invariant s this" and "IsEmpty s this = Some False"
  shows "case PopFront s this of
           Return u s' \<Rightarrow> invariant s' this
         | Throw s' \<Rightarrow> False
         | UB \<Rightarrow> False"
proof -
  from assms(1) obtain as where l: "list_at s this as"
    by (rule invariantE)
  from nonempty_list [OF l assms(2)] have "0 < length as"
    by simp
  from EraseAfter_index [OF l this] show ?thesis
    by (auto simp: PopFront_def before_begin_def intro: invariantI)
qed

lemma inv_Clear:
  assumes "invariant s this"
  shows "case Clear s this of
           None \<Rightarrow> False
         | Some (Return u s') \<Rightarrow>
             invariant s' this \<and> IsEmpty s' this = Some True \<and> GetSize s' this = Some 0
         | Some (Throw s') \<Rightarrow> False
         | Some UB \<Rightarrow> False"
proof -
  from assms obtain as where l: "list_at s this as"
    by (rule invariantE)
  from Clear_list [OF l] obtain s' where
    s': "Clear s this = Some (Return () s')" "list_at s' this []" "sizes s' = (sizes s)(this \<mapsto> 0)"
    by blast
  from s'(2) obtain n where "this \<noteq> 0" "nodes s' this = Some n" "next_node n = 0"
    by (auto simp: list_at_def split: option.splits)
  with s' show ?thesis
    by (simp add: invariantI IsEmpty_def GetSize_def load_def)
qed

lemma inv_swap:
  assumes "list_at s this as" and "list_at s other bs"
    and "this \<notin> set bs" and "other \<notin> set as"
  shows "case swap s this other of
           Return u s' \<Rightarrow> invariant s' this \<and> invariant s' other
             \<and> list_at s' this bs \<and> list_at s' other as
         | Throw s' \<Rightarrow> False
         | UB \<Rightarrow> False"
  using swap_lists [OF assms] by (auto intro: invariantI)

lemma inv_Create:
  assumes "valid_alloc alloc" and "invariant s e" and "IsEmpty s e = Some True"
  shows "case Create alloc (\<lambda>i j. i \<noteq> j) (array_get vs) array_inc s e 0 (length vs) of
           None \<Rightarrow> False
         | Some (Return u s') \<Rightarrow> invariant s' e
         | Some (Throw s') \<Rightarrow> invariant s' e
         | Some UB \<Rightarrow> False"
proof -
  from assms(2) obtain as where l: "list_at s e as"
    by (rule invariantE)
  from nonempty_list [OF l assms(3)] have e: "as = []"
    by simp
  with l obtain n where n: "e \<noteq> 0" "nodes s e = Some n" "next_node n = 0"
    by (auto simp: list_at_def split: option.splits)
  from l obtain m0 where m0: "sizes s e = Some m0" "unat m0 = length as"
    by (rule list_at_size)
  from m0(2) e have "m0 = 0"
    by (simp add: unat_eq_zero)
  with m0(1) have m: "sizes s e = Some 0"
    by simp
  from Create_loop_array [OF assms(1) n m refl, of 0 vs]
  have "created s e e vs (Create alloc (\<lambda>i j. i \<noteq> j) (array_get vs) array_inc s e 0 (length vs))"
    by (simp add: Create_def)
  then show ?thesis
    using appended_list [OF _ m]
    by (auto simp: created_def intro: invariantI split: option.splits outcome.splits)
qed

section \<open>Equality of lists\<close>

text \<open>
  Claim C1 says that \<open>operator==\<close> is true exactly when the two lists have the same
  number of elements and equal elements at equal positions. The code passes only the
  begin of the right list to \<open>std::equal\<close>, which walks the left list and never looks at
  the end of the right one. With \<open>{1, 2}\<close> on the left and \<open>{1, 2, 3}\<close> on the right
  the lists have sizes 2 and 3 and compare equal; with the two exchanged the loop reads
  through the null pointer after the last node of \<open>{1, 2}\<close>.
\<close>

theorem operator_eq_strict_prefix:
  "items four_lists 1 = Some (Some [1, 2])
   \<and> items four_lists 5 = Some (Some [1, 2, 3])
   \<and> GetSize four_lists 1 = Some 2 \<and> GetSize four_lists 5 = Some 3
   \<and> operator_eq four_lists 1 5 = Some (Some True)
   \<and> operator_ne four_lists 1 5 = Some (Some False)
   \<and> operator_eq four_lists 5 1 = Some None"
proof -
  have l: "list_at four_lists 1 [2, 3]" "list_at four_lists 5 [6, 7, 8]"
    by (simp_all add: list_at_def four_lists_def)
  have it: "items four_lists 1 = Some (Some [1, 2])" "items four_lists 5 = Some (Some [1, 2, 3])"
    using l [THEN items_list] by (simp_all add: four_lists_def)
  have e1: "operator_eq four_lists 1 5 = Some (Some True)"
    by (simp add: operator_eq_def std_equal.simps run_defs four_lists_def)
  have e2: "operator_eq four_lists 5 1 = Some None"
    by (simp add: operator_eq_def std_equal.simps run_defs four_lists_def)
  show ?thesis
    using it e1 e2 by (simp add: operator_ne_def) (simp add: GetSize_def four_lists_def)
qed

section \<open>Default-constructed iterators\<close>

text \<open>
  Claim C2 says that a default-constructed iterator matches neither another
  default-constructed iterator nor the end iterator of a list. The code compares the
  \<open>node_\<close> pointers, and both a default-constructed iterator and \<open>end()\<close> hold the null
  pointer: at the list at address \<open>1\<close> the comparisons give a match.
\<close>

theorem default_iterator_matches_counterexample:
  "it_eq BasicIterator_default BasicIterator_default = True
   \<and> it_ne BasicIterator_default BasicIterator_default = False
   \<and> it_eq BasicIterator_default (list_end 1) = True
   \<and> it_ne BasicIterator_default (list_end 1) = False"
  by (simp add: it_eq_def it_ne_def BasicIterator_default_def list_end_def)

text \<open>
  Claim C2, amended. A default-constructed iterator references no node: dereferencing and
  incrementing it are undefined in every memory. It compares equal to another
  default-constructed iterator and to the end iterator of any list (\<open>operator==\<close> is
  true, \<open>operator!=\<close> is false): it is the end iterator.
\<close>

theorem default_iterator_is_end:
  "it_deref s BasicIterator_default = None
   \<and> it_incr s BasicIterator_default = None
   \<and> it_eq BasicIterator_default BasicIterator_default
   \<and> \<not> it_ne BasicIterator_default BasicIterator_default
   \<and> it_eq BasicIterator_default (list_end this)
   \<and> \<not> it_ne BasicIterator_default (list_end this)
   \<and> it_eq (list_end this) BasicIterator_default
   \<and> BasicIterator_default = list_end this"
  by (simp add: it_eq_def it_ne_def BasicIterator_default_def list_end_def it_deref_def
      it_incr_def load_def)

section \<open>The invariant of a list\<close>

text \<open>
  Claim C3 says that every public operation preserves the invariant: \<open>size_\<close> is the
  number of real nodes reachable from the sentinel, the chain has no cycle, and the link of
  the last node is null. \<open>Create\<close> is a public member function. It starts at the
  sentinel whatever the list holds, so on the list \<open>{1, 2, 3}\<close> with the one value
  \<open>7\<close> it links the sentinel to the one new node and counts \<open>size_\<close> up from 3: the
  list then reads \<open>{7}\<close> with \<open>size_ = 4\<close>, and the invariant is broken.
\<close>

theorem Create_on_nonempty_counterexample:
  "invariant list_123 1
   \<and> items list_123 1 = Some (Some [1, 2, 3]) \<and> GetSize list_123 1 = Some 3
   \<and> Create (first_fit 8) (\<noteq>) (array_get [7]) array_inc list_123 1 0 (length [7::int])
       = Some (Return () list_123_created)
   \<and> items list_123_created 1 = Some (Some [7])
   \<and> GetSize list_123_created 1 = Some 4
   \<and> \<not> invariant list_123_created 1"
proof -
  have l: "list_at list_123 1 [2, 3, 4]"
    by (simp add: list_at_def list_123_def)
  have i: "invariant list_123 1"
    using l by (rule invariantI)
  have it: "items list_123 1 = Some (Some [1, 2, 3])"
    using items_list [OF l] by (simp add: list_123_def)
  have sz: "GetSize list_123 1 = Some 3"
    by (simp add: GetSize_def list_123_def)
  have ev: "Create (first_fit 8) (\<noteq>) (array_get [7]) array_inc list_123 1 0 (length [7::int])
      = Some (Return () list_123_created)"
    by (simp add: ctor_defs run_defs list_123_def list_123_created_def fun_eq_iff)
  have p: "path (nodes list_123_created) 1 [1, 5] 0"
    by (simp add: list_123_created_def)
  have it': "items list_123_created 1 = Some (Some [7])"
    by (simp add: items_def traverse.simps run_defs list_123_created_def)
  have sz': "GetSize list_123_created 1 = Some 4"
    by (simp add: GetSize_def list_123_created_def)
  have ni: "\<not> invariant list_123_created 1"
  proof
    assume "invariant list_123_created 1"
    then obtain as where a: "list_at list_123_created 1 as"
      by (rule invariantE)
    then have "path (nodes list_123_created) 1 (1 # as) 0"
      by (simp add: list_at_def)
    from path_unique [OF this p] have "as = [5]"
      by simp
    with a show False
      by (simp add: list_at_def list_123_created_def)
  qed
  show ?thesis
    using i it sz ev it' sz' ni by (intro conjI)
qed

text \<open>
  Claim C3, amended. Every public operation ends without undefined behaviour and
  establishes or preserves the invariant when it is called as the constructors and the
  other members call it:
  \<^item> the default constructor, the constructor from a sequence and the copy constructor
    make a list that satisfies the invariant (the copy constructor keeps that of the
    original);
  \<^item> \<open>operator=\<close>, \<open>PushFront\<close> and \<open>Clear\<close> preserve it on every list;
  \<^item> \<open>InsertAfter\<close> preserves it when \<open>pos\<close> references the sentinel or a real node
    of this list, \<open>EraseAfter\<close> when moreover a real node follows \<open>pos\<close>, \<open>PopFront\<close>
    on a list that is not empty;
  \<^item> \<open>swap\<close> preserves it for both lists when neither sentinel lies in the chain of the
    other;
  \<^item> \<open>Create\<close> preserves it on an empty list.
  An operation that throws because an allocation fails leaves the memory unchanged; for
  \<open>Create\<close> the nodes made so far stay, and the invariant holds.
\<close>

theorem invariant_preserved:
  assumes "valid_alloc alloc"
  shows
   "(new \<noteq> 0 \<longrightarrow> invariant (SingleLinkedList_default T0 s new) new)
    \<and> (vacant s new \<and> vacant s tmp \<and> new \<noteq> tmp \<longrightarrow>
         (case SingleLinkedList_values alloc T0 tmp s new vs of
            None \<Rightarrow> False
          | Some (Return u s') \<Rightarrow> invariant s' new
          | Some (Throw s') \<Rightarrow> s' = s
          | Some UB \<Rightarrow> False))
    \<and> (vacant s new \<and> vacant s tmp \<and> new \<noteq> tmp \<and> invariant s this \<longrightarrow>
         (case SingleLinkedList_copy alloc T0 tmp s new this of
            None \<Rightarrow> False
          | Some (Return u s') \<Rightarrow> invariant s' new \<and> invariant s' this
          | Some (Throw s') \<Rightarrow> s' = s
          | Some UB \<Rightarrow> False))
    \<and> (vacant s cp \<and> vacant s tmp \<and> cp \<noteq> tmp \<and> invariant s this \<and> invariant s other \<longrightarrow>
         (case operator_assign alloc T0 cp tmp s this other of
            None \<Rightarrow> False
          | Some (Return u s') \<Rightarrow> invariant s' this
          | Some (Throw s') \<Rightarrow> s' = s
          | Some UB \<Rightarrow> False))
    \<and> (invariant s this \<longrightarrow>
         (case PushFront alloc s this v of
            Return u s' \<Rightarrow> invariant s' this
          | Throw s' \<Rightarrow> s' = s
          | UB \<Rightarrow> False))
    \<and> (list_at s this as \<and> p \<in> set (this # as) \<longrightarrow>
         (case InsertAfter alloc s this \<lparr>node = p\<rparr> v of
            Return it s' \<Rightarrow> invariant s' this
          | Throw s' \<Rightarrow> s' = s
          | UB \<Rightarrow> False))
    \<and> (list_at s this as \<and> i < length as \<longrightarrow>
         (case EraseAfter s this \<lparr>node = (this # as) ! i\<rparr> of
            Return it s' \<Rightarrow> invariant s' this
          | Throw s' \<Rightarrow> False
          | UB \<Rightarrow> False))
    \<and> (invariant s this \<and> IsEmpty s this = Some False \<longrightarrow>
         (case PopFront s this of
            Return u s' \<Rightarrow> invariant s' this
          | Throw s' \<Rightarrow> False
          | UB \<Rightarrow> False))
    \<and> (invariant s this \<longrightarrow>
         (case Clear s this of
            None \<Rightarrow> False
          | Some (Return u s') \<Rightarrow>
              invariant s' this \<and> IsEmpty s' this = Some True \<and> GetSize s' this = Some 0
          | Some (Throw s') \<Rightarrow> False
          | Some UB \<Rightarrow> False))
    \<and> (list_at s this as \<and> list_at s other bs \<and> this \<notin> set bs \<and> other \<notin> set as \<longrightarrow>
         (case swap s this other of
            Return u s' \<Rightarrow> invariant s' this \<and> invariant s' other
              \<and> list_at s' this bs \<and> list_at s' other as
          | Throw s' \<Rightarrow> False
          | UB \<Rightarrow> False))
    \<and> (invariant s e \<and> IsEmpty s e = Some True \<longrightarrow>
         (case Create alloc (\<lambda>i j. i \<noteq> j) (array_get vs) array_inc s e 0 (length vs) of
            None \<Rightarrow> False
          | Some (Return u s') \<Rightarrow> invariant s' e
          | Some (Throw s') \<Rightarrow> invariant s' e
          | Some UB \<Rightarrow> False))"
proof (intro conjI impI)
  show "invariant (SingleLinkedList_default T0 s new) new" if "new \<noteq> 0"
    using that by (rule inv_default)
  show "case SingleLinkedList_values alloc T0 tmp s new vs of
            None \<Rightarrow> False
          | Some (Return u s') \<Rightarrow> invariant s' new
          | Some (Throw s') \<Rightarrow> s' = s
          | Some UB \<Rightarrow> False"
    if "vacant s new \<and> vacant s tmp \<and> new \<noteq> tmp"
    using that by (intro inv_values [OF assms]) simp_all
  show "case SingleLinkedList_copy alloc T0 tmp s new this of
            None \<Rightarrow> False
          | Some (Return u s') \<Rightarrow> invariant s' new \<and> invariant s' this
          | Some (Throw s') \<Rightarrow> s' = s
          | Some UB \<Rightarrow> False"
    if "vacant s new \<and> vacant s tmp \<and> new \<noteq> tmp \<and> invariant s this"
    using that by (intro inv_copy [OF assms]) simp_all
  show "case operator_assign alloc T0 cp tmp s this other of
            None \<Rightarrow> False
          | Some (Return u s') \<Rightarrow> invariant s' this
          | Some (Throw s') \<Rightarrow> s' = s
          | Some UB \<Rightarrow> False"
    if "vacant s cp \<and> vacant s tmp \<and> cp \<noteq> tmp \<and> invariant s this \<and> invariant s other"
    using that by (intro inv_assign [OF assms]) simp_all
  show "case PushFront alloc s this v of
            Return u s' \<Rightarrow> invariant s' this
          | Throw s' \<Rightarrow> s' = s
          | UB \<Rightarrow> False"
    if "invariant s this"
    using assms that by (rule inv_PushFront)
  show "case InsertAfter alloc s this \<lparr>node = p\<rparr> v of
            Return it s' \<Rightarrow> invariant s' this
          | Throw s' \<Rightarrow> s' = s
          | UB \<Rightarrow> False"
    if "list_at s this as \<and> p \<in> set (this # as)"
    using inv_InsertAfter [OF assms conjunct1 [OF that] conjunct2 [OF that]] .
  show "case EraseAfter s this \<lparr>node = (this # as) ! i\<rparr> of
            Return it s' \<Rightarrow> invariant s' this
          | Throw s' \<Rightarrow> False
          | UB \<Rightarrow> False"
    if "list_at s this as \<and> i < length as"
    using inv_EraseAfter [OF conjunct1 [OF that] conjunct2 [OF that]] .
  show "case PopFront s this of
            Return u s' \<Rightarrow> invariant s' this
          | Throw s' \<Rightarrow> False
          | UB \<Rightarrow> False"
    if "invariant s this \<and> IsEmpty s this = Some False"
    using that by (intro inv_PopFront) simp_all
  show "case Clear s this of
            None \<Rightarrow> False
          | Some (Return u s') \<Rightarrow>
              invariant s' this \<and> IsEmpty s' this = Some True \<and> GetSize s' this = Some 0
          | Some (Throw s') \<Rightarrow> False
          | Some UB \<Rightarrow> False"
    if "invariant s this"
    using that by (rule inv_Clear)
  show "case swap s this other of
            Return u s' \<Rightarrow> invariant s' this \<and> invariant s' other
              \<and> list_at s' this bs \<and> list_at s' other as
          | Throw s' \<Rightarrow> False
          | UB \<Rightarrow> False"
    if "list_at s this as \<and> list_at s other bs \<and> this \<notin> set bs \<and> other \<notin> set as"
    using that inv_swap [of s this as other bs] by simp
  show "case Create alloc (\<lambda>i j. i \<noteq> j) (array_get vs) array_inc s e 0 (length vs) of
            None \<Rightarrow> False
          | Some (Return u s') \<Rightarrow> invariant s' e
          | Some (Throw s') \<Rightarrow> invariant s' e
          | Some UB \<Rightarrow> False"
    if "invariant s e \<and> IsEmpty s e = Some True"
    using that by (intro inv_Create [OF assms]) simp_all
qed


theorem invariant_preserved_witness:
  "valid_alloc (first_fit 30 :: int allocator)
   \<and> vacant list_and_empty 20 \<and> vacant list_and_empty 21 \<and> vacant list_and_empty 22
   \<and> list_at list_and_empty 1 [2, 3] \<and> list_at list_and_empty 5 []
   \<and> invariant list_and_empty 1 \<and> invariant list_and_empty 5
   \<and> IsEmpty list_and_empty 1 = Some False \<and> IsEmpty list_and_empty 5 = Some True
   \<and> invariant (SingleLinkedList_default 0 list_and_empty 20) 20
   \<and> (case SingleLinkedList_values (first_fit 30) 0 21 list_and_empty 20 [7, 8] of
         Some (Return u s') \<Rightarrow> invariant s' 20 | _ \<Rightarrow> False)
   \<and> (case SingleLinkedList_copy (first_fit 30) 0 21 list_and_empty 20 1 of
         Some (Return u s') \<Rightarrow> invariant s' 20 \<and> invariant s' 1 | _ \<Rightarrow> False)
   \<and> (case operator_assign (first_fit 30) 0 22 21 list_and_empty 1 5 of
         Some (Return u s') \<Rightarrow> invariant s' 1 | _ \<Rightarrow> False)
   \<and> (case PushFront (first_fit 30) list_and_empty 1 9 of
         Return u s' \<Rightarrow> invariant s' 1 | _ \<Rightarrow> False)
   \<and> (case InsertAfter (first_fit 30) list_and_empty 1 \<lparr>node = 2\<rparr> 9 of
         Return it s' \<Rightarrow> invariant s' 1 | _ \<Rightarrow> False)
   \<and> (case EraseAfter list_and_empty 1 \<lparr>node = 1\<rparr> of
         Return it s' \<Rightarrow> invariant s' 1 | _ \<Rightarrow> False)
   \<and> (case PopFront list_and_empty 1 of
         Return u s' \<Rightarrow> invariant s' 1 | _ \<Rightarrow> False)
   \<and> (case Clear list_and_empty 1 of
         Some (Return u s') \<Rightarrow> invariant s' 1 \<and> GetSize s' 1 = Some 0 | _ \<Rightarrow> False)
   \<and> (case swap list_and_empty 1 5 of
         Return u s' \<Rightarrow> invariant s' 1 \<and> invariant s' 5 \<and> list_at s' 1 [] \<and> list_at s' 5 [2, 3]
       | _ \<Rightarrow> False)
   \<and> (case Create (first_fit 30) (\<lambda>i j. i \<noteq> j) (array_get [7, 8]) array_inc list_and_empty 5 0
           (length [7, 8 :: int]) of
         Some (Return u s') \<Rightarrow> invariant s' 5 | _ \<Rightarrow> False)"
proof -
  have va: "valid_alloc (first_fit 30 :: int allocator)"
    by (rule valid_alloc_first_fit)
  have vc: "vacant list_and_empty 20" "vacant list_and_empty 21" "vacant list_and_empty 22"
    by (simp_all add: vacant_def list_and_empty_def)
  have l: "list_at list_and_empty 1 [2, 3]" "list_at list_and_empty 5 []"
    by (simp_all add: list_at_def list_and_empty_def)
  have i: "invariant list_and_empty 1" "invariant list_and_empty 5"
    by (rule invariantI [OF l(1)], rule invariantI [OF l(2)])
  have e: "IsEmpty list_and_empty 1 = Some False" "IsEmpty list_and_empty 5 = Some True"
    by (simp_all add: IsEmpty_def load_def list_and_empty_def)
  note T = invariant_preserved [OF va, of 20 0 list_and_empty 21 "[7, 8]" 1 22 5 9 "[2, 3]" 2 0 "[]" 5]
  note T1 = T [THEN conjunct1]
  note T2 = T [THEN conjunct2, THEN conjunct1]
  note T3 = T [THEN conjunct2, THEN conjunct2, THEN conjunct1]
  note T4 = T [THEN conjunct2, THEN conjunct2, THEN conjunct2, THEN conjunct1]
  note R4 = T [THEN conjunct2, THEN conjunct2, THEN conjunct2, THEN conjunct2]
  note T5 = R4 [THEN conjunct1]
  note T6 = R4 [THEN conjunct2, THEN conjunct1]
  note T7 = R4 [THEN conjunct2, THEN conjunct2, THEN conjunct1]
  note T8 = R4 [THEN conjunct2, THEN conjunct2, THEN conjunct2, THEN conjunct1]
  note R8 = R4 [THEN conjunct2, THEN conjunct2, THEN conjunct2, THEN conjunct2]
  note T9 = R8 [THEN conjunct1]
  note T10 = R8 [THEN conjunct2, THEN conjunct1]
  note T11 = R8 [THEN conjunct2, THEN conjunct2]
  have c1: "invariant (SingleLinkedList_default 0 list_and_empty 20) 20"
    using T1 by simp
  have r2: "\<exists>s'. SingleLinkedList_values (first_fit 30) 0 21 list_and_empty 20 [7, 8] = Some (Return () s')"
    by (simp add: ctor_defs run_defs list_and_empty_def)
  have c2: "case SingleLinkedList_values (first_fit 30) 0 21 list_and_empty 20 [7, 8] of
         Some (Return u s') \<Rightarrow> invariant s' 20 | _ \<Rightarrow> False"
    using T2 vc r2 by auto
  have r3: "\<exists>s'. SingleLinkedList_copy (first_fit 30) 0 21 list_and_empty 20 1 = Some (Return () s')"
    by (simp add: ctor_defs run_defs list_and_empty_def)
  have c3: "case SingleLinkedList_copy (first_fit 30) 0 21 list_and_empty 20 1 of
         Some (Return u s') \<Rightarrow> invariant s' 20 \<and> invariant s' 1 | _ \<Rightarrow> False"
    using T3 vc i r3 by auto
  have r4: "\<exists>s'. operator_assign (first_fit 30) 0 22 21 list_and_empty 1 5 = Some (Return () s')"
    by (simp add: ctor_defs run_defs list_and_empty_def)
  have c4: "case operator_assign (first_fit 30) 0 22 21 list_and_empty 1 5 of
         Some (Return u s') \<Rightarrow> invariant s' 1 | _ \<Rightarrow> False"
    using T4 vc i r4 by auto
  have r5: "\<exists>s'. PushFront (first_fit 30) list_and_empty 1 9 = Return () s'"
    by (simp add: run_defs list_and_empty_def)
  have c5: "case PushFront (first_fit 30) list_and_empty 1 9 of
         Return u s' \<Rightarrow> invariant s' 1 | _ \<Rightarrow> False"
    using T5 i r5 by auto
  have r6: "\<exists>it s'. InsertAfter (first_fit 30) list_and_empty 1 \<lparr>node = 2\<rparr> 9 = Return it s'"
    by (simp add: run_defs list_and_empty_def)
  have c6: "case InsertAfter (first_fit 30) list_and_empty 1 \<lparr>node = 2\<rparr> 9 of
         Return it s' \<Rightarrow> invariant s' 1 | _ \<Rightarrow> False"
    using T6 l r6 by auto
  have c7: "case EraseAfter list_and_empty 1 \<lparr>node = 1\<rparr> of
         Return it s' \<Rightarrow> invariant s' 1 | _ \<Rightarrow> False"
    using T7 l by (auto split: outcome.splits)
  have c8: "case PopFront list_and_empty 1 of
         Return u s' \<Rightarrow> invariant s' 1 | _ \<Rightarrow> False"
    using T8 i e by (auto split: outcome.splits)
  have c9: "case Clear list_and_empty 1 of
         Some (Return u s') \<Rightarrow> invariant s' 1 \<and> GetSize s' 1 = Some 0 | _ \<Rightarrow> False"
    using T9 i by (auto split: option.splits outcome.splits)
  have c10: "case swap list_and_empty 1 5 of
         Return u s' \<Rightarrow> invariant s' 1 \<and> invariant s' 5 \<and> list_at s' 1 [] \<and> list_at s' 5 [2, 3]
       | _ \<Rightarrow> False"
    using T10 l by (auto split: outcome.splits)
  have r11: "\<exists>s'. Create (first_fit 30) (\<lambda>i j. i \<noteq> j) (array_get [7, 8]) array_inc list_and_empty 5 0
           (length [7, 8 :: int]) = Some (Return () s')"
    by (simp add: ctor_defs run_defs list_and_empty_def)
  have c11: "case Create (first_fit 30) (\<lambda>i j. i \<noteq> j) (array_get [7, 8]) array_inc list_and_empty 5 0
           (length [7, 8 :: int]) of
         Some (Return u s') \<Rightarrow> invariant s' 5 | _ \<Rightarrow> False"
    using T11 i e r11 by auto
  show ?thesis
    using va vc l i e c1 c2 c3 c4 c5 c6 c7 c8 c9 c10 c11
    by (intro conjI)
qed

section \<open>InsertAfter\<close>

text \<open>
  Claim C4. Let the list at \<open>this\<close> consist of the nodes \<open>as\<close>, and let \<open>pos\<close>
  reference the sentinel (\<open>i = 0\<close>) or the \<open>i\<close>-th real node. Then
  \<open>InsertAfter(pos, v)\<close> has defined behaviour. When the allocation succeeds it returns
  an iterator to one new node, which was not alive before, holds \<open>v\<close> and is linked
  to the node that followed \<open>pos\<close>; the node of \<open>pos\<close> is relinked to the new node and no other node changes;
  the list now has the new node at position \<open>i\<close>, reading it gives the old elements
  with \<open>v\<close> inserted there, the size is one more, and the returned iterator
  dereferences to \<open>v\<close>. When the allocation fails the exception leaves the memory as
  it was.
\<close>

theorem InsertAfter_inserts:
  assumes "valid_alloc alloc" and "list_at s this as" and "i \<le> length as"
    and "pos = \<lparr>node = (this # as) ! i\<rparr>"
  shows "case InsertAfter alloc s this pos v of
           Return it s' \<Rightarrow>
             alloc s = Some (node it) \<and> nodes s (node it) = None
             \<and> nodes s' (node it) = Some \<lparr>val = v, next_node = (if i < length as then as ! i else 0)\<rparr>
             \<and> map_option next_node (nodes s' (node pos)) = Some (node it)
             \<and> (\<forall>x. x \<noteq> node it \<and> x \<noteq> node pos \<longrightarrow> nodes s' x = nodes s x)
             \<and> list_at s' this (take i as @ node it # drop i as)
             \<and> items s' this = Some (Some (take i (vals s as) @ v # drop i (vals s as)))
             \<and> map_option unat (GetSize s' this) = Some (length as + 1)
             \<and> it_deref s' it = Some v
         | Throw s' \<Rightarrow> alloc s = None \<and> s' = s
         | UB \<Rightarrow> False"
proof (cases "alloc s")
  case None
  have pin: "(this # as) ! i \<in> set (this # as)"
    using assms(3) by (intro nth_mem) simp
  from list_at_live [OF assms(2) pin] obtain n where n: "(this # as) ! i \<noteq> 0" "nodes s ((this # as) ! i) = Some n"
    by auto
  from assms(2) obtain m where m: "sizes s this = Some m" "unat m = length as"
    by (rule list_at_size)
  show ?thesis
    using InsertAfter_eval [OF n m(1), of alloc v] None assms(4) by simp
next
  case (Some a)
  from InsertAfter_index [OF assms(1,2,3) Some, of v] obtain s' where
    s': "InsertAfter alloc s this \<lparr>node = (this # as) ! i\<rparr> v = Return \<lparr>node = a\<rparr> s'"
      "list_at s' this (take i as @ a # drop i as)"
      "vals s' (take i as @ a # drop i as) = take i (vals s as) @ v # drop i (vals s as)"
      "nodes s' a = Some \<lparr>val = v, next_node = (if i < length as then as ! i else 0)\<rparr>"
      "map_option next_node (nodes s' ((this # as) ! i)) = Some a"
      "\<forall>x. x \<noteq> a \<and> x \<noteq> (this # as) ! i \<longrightarrow> nodes s' x = nodes s x"
    by blast
  from assms(1) Some have a: "a \<noteq> 0" "nodes s a = None"
    by (auto simp: valid_alloc_def)
  have it: "items s' this = Some (Some (take i (vals s as) @ v # drop i (vals s as)))"
    using items_list [OF s'(2)] s'(3) by simp
  have sz: "map_option unat (GetSize s' this) = Some (length as + 1)"
    using s'(2) assms(3) by (simp add: list_at_def GetSize_def)
  have dr: "it_deref s' \<lparr>node = a\<rparr> = Some v"
    using s'(4) a(1) by (simp add: it_deref_def load_def)
  show ?thesis
    using s' a it sz dr Some assms(4) by simp
qed

theorem InsertAfter_inserts_witness:
  "valid_alloc (first_fit 8 :: int allocator) \<and> list_at list_ab 1 [2, 3]
   \<and> (case InsertAfter (first_fit 8) list_ab 1 (before_begin 1) 5 of
         Return it s' \<Rightarrow> node it = 4 \<and> items s' 1 = Some (Some [5, 10, 20])
            \<and> GetSize s' 1 = Some 3 \<and> it_deref s' it = Some 5
       | Throw s' \<Rightarrow> False
       | UB \<Rightarrow> False)"
proof -
  have va: "valid_alloc (first_fit 8 :: int allocator)"
    by (rule valid_alloc_first_fit)
  have l: "list_at list_ab 1 [2, 3]"
    by (simp add: list_at_def list_ab_def)
  have pos: "before_begin 1 = \<lparr>node = ((1::addr) # [2, 3]) ! 0\<rparr>"
    by (simp add: before_begin_def)
  have vs: "nodes list_ab 2 = Some \<lparr>val = 10, next_node = 3\<rparr>"
    "nodes list_ab 3 = Some \<lparr>val = 20, next_node = 0\<rparr>"
    by (simp_all add: list_ab_def)
  have ev: "InsertAfter (first_fit 8) list_ab 1 (before_begin 1) 5 = Return \<lparr>node = 4\<rparr>
     (list_ab\<lparr>nodes := (nodes list_ab)(4 \<mapsto> \<lparr>val = 5, next_node = 2\<rparr>, 1 \<mapsto> \<lparr>val = 0, next_node = 4\<rparr>),
              sizes := (sizes list_ab)(1 \<mapsto> 3)\<rparr>)"
    by (simp add: InsertAfter_def before_begin_def load_def new_Node_def store_next_def
        store_size_def first_fit_def upt_rec list_ab_def)
  show ?thesis
    using InsertAfter_inserts [OF va l _ pos, of 5] va l
    by (simp add: ev vs GetSize_def)
qed

section \<open>EraseAfter\<close>

text \<open>
  Claim C5. Let the list at \<open>this\<close> consist of the nodes \<open>as\<close>, and let \<open>pos\<close>
  reference the sentinel (\<open>i = 0\<close>) or the \<open>i\<close>-th real node, with a real node
  \<open>as ! i\<close> after it. Then \<open>EraseAfter(pos)\<close> returns (it neither throws nor has
  undefined behaviour): the node \<open>as ! i\<close> is destroyed, every node other than it and the
  node of \<open>pos\<close> is untouched, the node of \<open>pos\<close> keeps its value and is linked to the
  node the returned iterator references, the list has lost exactly the element at position
  \<open>i\<close>, the size is one less, and the returned iterator references the node that
  followed the removed one, or is \<open>end()\<close> when there was none.
\<close>

theorem EraseAfter_erases:
  assumes "list_at s this as" and "i < length as" and "pos = \<lparr>node = (this # as) ! i\<rparr>"
  shows "case EraseAfter s this pos of
           Return it s' \<Rightarrow>
             nodes s' (as ! i) = None
             \<and> (\<forall>x. x \<noteq> as ! i \<and> x \<noteq> node pos \<longrightarrow> nodes s' x = nodes s x)
             \<and> map_option next_node (nodes s' (node pos)) = Some (node it)
             \<and> map_option val (nodes s' (node pos)) = map_option val (nodes s (node pos))
             \<and> list_at s' this (take i as @ drop (Suc i) as)
             \<and> items s' this = Some (Some (take i (vals s as) @ drop (Suc i) (vals s as)))
             \<and> map_option unat (GetSize s' this) = Some (length as - 1)
             \<and> (if Suc i < length as
                 then node it = as ! Suc i \<and> it_deref s' it = Some (vals s as ! Suc i)
                 else it = list_end this)
         | Throw s' \<Rightarrow> False
         | UB \<Rightarrow> False"
proof -
  from EraseAfter_index [OF assms(1,2)] obtain s' where
    s': "EraseAfter s this \<lparr>node = (this # as) ! i\<rparr> =
              Return \<lparr>node = (if Suc i < length as then as ! Suc i else 0)\<rparr> s'"
      "list_at s' this (take i as @ drop (Suc i) as)"
      "vals s' (take i as @ drop (Suc i) as) = take i (vals s as) @ drop (Suc i) (vals s as)"
      "nodes s' (as ! i) = None"
      "map_option next_node (nodes s' ((this # as) ! i))
                = Some (if Suc i < length as then as ! Suc i else 0)"
      "\<forall>x. x \<noteq> as ! i \<and> x \<noteq> (this # as) ! i \<longrightarrow> nodes s' x = nodes s x"
      "map_option val (nodes s' ((this # as) ! i)) = map_option val (nodes s ((this # as) ! i))"
    by blast
  have it: "items s' this = Some (Some (take i (vals s as) @ drop (Suc i) (vals s as)))"
    using items_list [OF s'(2)] s'(3) by simp
  have sz: "map_option unat (GetSize s' this) = Some (length as - 1)"
    using s'(2) assms(2) by (simp add: list_at_def GetSize_def)
  have d: "distinct (this # as)"
    using assms(1) by (rule list_at_distinct)
  have nxt: "Suc i < length as \<Longrightarrow> it_deref s' \<lparr>node = as ! Suc i\<rparr> = Some (vals s as ! Suc i)"
  proof -
    assume si: "Suc i < length as"
    have a: "as ! Suc i \<noteq> as ! i"
      using d si by (simp add: nth_eq_iff_index_eq)
    have "(this # as) ! Suc (Suc i) \<noteq> (this # as) ! i"
      using d si by (subst nth_eq_iff_index_eq) simp_all
    then have b: "as ! Suc i \<noteq> (this # as) ! i"
      by simp
    have c: "as ! Suc i \<in> set (this # as)"
      using si by simp
    from list_at_live [OF assms(1) c] obtain x where "as ! Suc i \<noteq> 0" "nodes s (as ! Suc i) = Some x"
      by auto
    with a b s'(6) si show ?thesis
      by (simp add: it_deref_def load_def vals_def)
  qed
  show ?thesis
    using s' it sz nxt assms(3) by (simp add: list_end_def)
qed

theorem EraseAfter_erases_witness:
  "list_at list_123 1 [2, 3, 4]
   \<and> (case EraseAfter list_123 1 \<lparr>node = 2\<rparr> of
         Return it s' \<Rightarrow> items s' 1 = Some (Some [1, 3]) \<and> GetSize s' 1 = Some 2
            \<and> it_deref s' it = Some 3 \<and> nodes s' 3 = None
       | Throw s' \<Rightarrow> False
       | UB \<Rightarrow> False)"
proof -
  have l: "list_at list_123 1 [2, 3, 4]"
    by (simp add: list_at_def list_123_def)
  have pos: "\<lparr>node = 2\<rparr> = \<lparr>node = ((1::addr) # [2, 3, 4]) ! 1\<rparr>"
    by simp
  have ev: "EraseAfter list_123 1 \<lparr>node = 2\<rparr> = Return \<lparr>node = 4\<rparr>
     \<lparr>nodes = Map.empty(1 \<mapsto> \<lparr>val = 0, next_node = 2\<rparr>, 2 \<mapsto> \<lparr>val = 1, next_node = 4\<rparr>,
                  4 \<mapsto> \<lparr>val = 3, next_node = 0\<rparr>),
               sizes = Map.empty(1 \<mapsto> 2)\<rparr>"
    by (simp add: run_defs list_123_def fun_eq_iff)
  have vs: "nodes list_123 2 = Some \<lparr>val = 1, next_node = 3\<rparr>"
    "nodes list_123 3 = Some \<lparr>val = 2, next_node = 4\<rparr>"
    "nodes list_123 4 = Some \<lparr>val = 3, next_node = 0\<rparr>"
    by (simp_all add: list_123_def)
  show ?thesis
    using EraseAfter_erases [OF l _ pos] l
    unfolding ev by (simp add: GetSize_def vs)
qed

section \<open>Copy assignment\<close>

text \<open>
  Claim C6. Let \<open>this\<close> and \<open>rhs\<close> be lists (the same list for a self-assignment), and
  let the locals \<open>copy_rhs\<close> and \<open>tmp\<close> get unused storage. Then \<open>operator=\<close> ends,
  without undefined behaviour. When an allocation fails, the exception leaves the whole
  memory exactly as it was: the target is unmodified. Otherwise the target is made of
  nodes that were not alive before (a full copy: no node is shared), reading it gives the
  elements \<open>rhs\<close> had at the start, its size is that of \<open>rhs\<close> at the start, and its
  old nodes are destroyed; a right-hand side that shares no node with the target is as it
  was. This covers self-assignment (\<open>rhs = this\<close>) and an empty right-hand side
  (\<open>bs = []\<close>).
\<close>

theorem operator_assign_strong_guarantee:
  assumes "valid_alloc alloc" and "vacant s cp" and "vacant s tmp" and "cp \<noteq> tmp"
    and "list_at s this as" and "list_at s rhs bs"
  shows "case operator_assign alloc T0 cp tmp s this rhs of
           None \<Rightarrow> False
         | Some (Return u s') \<Rightarrow>
             items s' this = Some (Some (vals s bs))
             \<and> map_option unat (GetSize s' this) = Some (length bs)
             \<and> GetSize s' this = GetSize s rhs
             \<and> (\<exists>cs. list_at s' this cs \<and> (\<forall>c \<in> set cs. nodes s c = None))
             \<and> (\<forall>x \<in> set as. nodes s' x = None)
             \<and> (set (rhs # bs) \<inter> set (this # as) = {} \<longrightarrow>
                  list_at s' rhs bs \<and> items s' rhs = Some (Some (vals s bs))
                  \<and> GetSize s' rhs = GetSize s rhs)
         | Some (Throw s') \<Rightarrow> s' = s
         | Some UB \<Rightarrow> False"
proof (cases "operator_assign alloc T0 cp tmp s this rhs")
  case None
  with operator_assign_list [OF assms, of T0] show ?thesis by simp
next
  case (Some o1)
  show ?thesis
  proof (cases o1)
    case UB
    with operator_assign_list [OF assms, of T0] Some show ?thesis by simp
  next
    case (Throw s')
    with operator_assign_list [OF assms, of T0] Some show ?thesis by simp
  next
    case (Return u s')
    with operator_assign_list [OF assms, of T0] Some obtain cs where
      cs: "list_at s' this cs" "vals s' cs = vals s bs" "\<forall>c \<in> set cs. nodes s c = None"
        "\<forall>x \<in> set as. nodes s' x = None"
        "\<forall>x. x \<notin> set (this # as) \<union> set cs \<longrightarrow> nodes s' x = nodes s x"
        "\<forall>x. x \<noteq> this \<longrightarrow> sizes s' x = sizes s x"
      by auto
    have it: "items s' this = Some (Some (vals s bs))"
      using items_list [OF cs(1)] cs(2) by simp
    have "length cs = length bs"
      using arg_cong [OF cs(2), of length] by (simp add: vals_def)
    with cs(1) have sz: "map_option unat (GetSize s' this) = Some (length bs)"
      by (simp add: list_at_def GetSize_def)
    from assms(6) obtain m where m: "sizes s rhs = Some m" "unat m = length bs"
      by (rule list_at_size)
    from cs(1) obtain m' where m': "sizes s' this = Some m'" "unat m' = length cs"
      by (rule list_at_size)
    have gs: "GetSize s' this = GetSize s rhs"
      using m m' \<open>length cs = length bs\<close> by (simp add: GetSize_def word_unat_eq_iff)
    have ex: "\<exists>cs. list_at s' this cs \<and> (\<forall>c \<in> set cs. nodes s c = None)"
      using cs(1,3) by blast
    have rh: "list_at s' rhs bs \<and> items s' rhs = Some (Some (vals s bs))
                  \<and> GetSize s' rhs = GetSize s rhs"
      if dj: "set (rhs # bs) \<inter> set (this # as) = {}"
    proof -
      have live: "\<And>x. x \<in> set (rhs # bs) \<Longrightarrow> nodes s x \<noteq> None"
        using list_at_live [OF assms(6)] by blast
      have "set (rhs # bs) \<inter> set cs = {}"
        using live cs(3) by blast
      with dj have fr: "\<And>x. x \<in> set (rhs # bs) \<Longrightarrow> nodes s' x = nodes s x"
        using cs(5) by blast
      have rt: "rhs \<noteq> this"
        using dj by auto
      have "list_at s' rhs bs \<and> vals s' bs = vals s bs"
        by (rule list_at_frame [OF assms(6)]) (use fr cs(6) rt in auto)
      with items_list [of s' rhs bs] cs(6) rt show ?thesis
        by (simp add: GetSize_def)
    qed
    show ?thesis
      using Some Return it sz gs ex cs(4) rh by simp
  qed
qed

theorem operator_assign_strong_guarantee_witness:
  "valid_alloc (first_fit 30 :: int allocator) \<and> valid_alloc (first_fit 5 :: int allocator)
   \<and> vacant four_lists 20 \<and> vacant four_lists 21
   \<and> list_at four_lists 1 [2, 3] \<and> list_at four_lists 5 [6, 7, 8]
   \<and> (case operator_assign (first_fit 30) 0 20 21 four_lists 1 5 of
         Some (Return u s') \<Rightarrow> items s' 1 = Some (Some [1, 2, 3]) \<and> GetSize s' 1 = Some 3
            \<and> items s' 5 = Some (Some [1, 2, 3]) \<and> GetSize s' 5 = Some 3
       | _ \<Rightarrow> False)
   \<and> (case operator_assign (first_fit 30) 0 20 21 four_lists 5 5 of
         Some (Return u s') \<Rightarrow> items s' 5 = Some (Some [1, 2, 3]) \<and> GetSize s' 5 = Some 3
       | _ \<Rightarrow> False)
   \<and> operator_assign (first_fit 5) 0 20 21 four_lists 1 5 = Some (Throw four_lists)
   \<and> vacant list_and_empty 20 \<and> vacant list_and_empty 21
   \<and> list_at list_and_empty 1 [2, 3] \<and> list_at list_and_empty 5 []
   \<and> (case operator_assign (first_fit 30) 0 20 21 list_and_empty 1 5 of
         Some (Return u s') \<Rightarrow> items s' 1 = Some (Some []) \<and> GetSize s' 1 = Some 0
            \<and> IsEmpty s' 1 = Some True \<and> nodes s' 2 = None \<and> nodes s' 3 = None
       | _ \<Rightarrow> False)"
proof -
  have va: "valid_alloc (first_fit 30 :: int allocator)" "valid_alloc (first_fit 5 :: int allocator)"
    by (rule valid_alloc_first_fit)+
  have vc: "vacant four_lists 20" "vacant four_lists 21"
    by (simp_all add: vacant_def four_lists_def)
  have l: "list_at four_lists 1 [2, 3]" "list_at four_lists 5 [6, 7, 8]"
    by (simp_all add: list_at_def four_lists_def)
  have ve: "vacant list_and_empty 20" "vacant list_and_empty 21"
    by (simp_all add: vacant_def list_and_empty_def)
  have le: "list_at list_and_empty 1 [2, 3]" "list_at list_and_empty 5 []"
    by (simp_all add: list_at_def list_and_empty_def)
  have ne: "(20::addr) \<noteq> 21"
    by simp
  have vs: "vals four_lists [6, 7, 8] = [1, 2, 3]"
    by (simp add: four_lists_def)
  have sz: "sizes four_lists 5 = Some 3" "sizes list_and_empty 5 = Some 0"
    by (simp_all add: four_lists_def list_and_empty_def)
  have r1: "\<exists>s'. operator_assign (first_fit 30) 0 20 21 four_lists 1 5 = Some (Return () s')"
    by (simp add: ctor_defs run_defs four_lists_def)
  have r2: "\<exists>s'. operator_assign (first_fit 30) 0 20 21 four_lists 5 5 = Some (Return () s')"
    by (simp add: ctor_defs run_defs four_lists_def)
  have r3: "operator_assign (first_fit 5) 0 20 21 four_lists 1 5 = Some (Throw four_lists)"
    by (simp add: ctor_defs run_defs four_lists_def fun_eq_iff)
  have r4: "\<exists>s'. operator_assign (first_fit 30) 0 20 21 list_and_empty 1 5 = Some (Return () s')"
    by (simp add: ctor_defs run_defs list_and_empty_def)
  have dj: "set ((5::addr) # [6, 7, 8]) \<inter> set (1 # [2, 3]) = {}"
    by simp
  have c1: "case operator_assign (first_fit 30) 0 20 21 four_lists 1 5 of
         Some (Return u s') \<Rightarrow> items s' 1 = Some (Some [1, 2, 3]) \<and> GetSize s' 1 = Some 3
            \<and> items s' 5 = Some (Some [1, 2, 3]) \<and> GetSize s' 5 = Some 3
       | _ \<Rightarrow> False"
    using operator_assign_strong_guarantee [OF va(1) vc ne l(1) l(2), of 0] r1 dj
    by (auto simp: vs sz GetSize_def simp del: vals_Cons)
  have c2: "case operator_assign (first_fit 30) 0 20 21 four_lists 5 5 of
         Some (Return u s') \<Rightarrow> items s' 5 = Some (Some [1, 2, 3]) \<and> GetSize s' 5 = Some 3
       | _ \<Rightarrow> False"
    using operator_assign_strong_guarantee [OF va(1) vc ne l(2) l(2), of 0] r2
    by (auto simp: vs sz GetSize_def simp del: vals_Cons)
  have c4: "case operator_assign (first_fit 30) 0 20 21 list_and_empty 1 5 of
         Some (Return u s') \<Rightarrow> items s' 1 = Some (Some []) \<and> GetSize s' 1 = Some 0
            \<and> IsEmpty s' 1 = Some True \<and> nodes s' 2 = None \<and> nodes s' 3 = None
       | _ \<Rightarrow> False"
    using operator_assign_strong_guarantee [OF va(1) ve ne le(1) le(2), of 0] r4
    by (auto simp: sz GetSize_def IsEmpty_def load_def list_at_def split: option.splits)
  show ?thesis
    using va vc l ve le c1 c2 r3 c4 by simp
qed

section \<open>Copy construction\<close>

text \<open>
  Claim C7. Let \<open>other\<close> be a list, and let the new list \<open>this\<close> and the local \<open>tmp\<close>
  of the copy constructor get unused storage. The copy constructor ends without undefined
  behaviour; when an allocation fails the memory is as before. Otherwise the copy reads
  as the original and has its size, the original is as it was, and the two chains
  (sentinels included) share no node. Mutating the copy then leaves the element sequence
  and the size of the original unchanged: this is shown for \<open>PushFront\<close>, for
  \<open>PopFront\<close> and for \<open>Clear\<close> on the copy.
\<close>

theorem copy_is_independent:
  assumes "valid_alloc alloc" and "vacant s this" and "vacant s tmp" and "this \<noteq> tmp"
    and "list_at s other bs"
  shows "case SingleLinkedList_copy alloc T0 tmp s this other of
           None \<Rightarrow> False
         | Some (Return u s1) \<Rightarrow>
             items s1 this = Some (Some (vals s bs)) \<and> GetSize s1 this = GetSize s other
             \<and> items s1 other = Some (Some (vals s bs)) \<and> GetSize s1 other = GetSize s other
             \<and> (\<exists>cs. list_at s1 this cs \<and> list_at s1 other bs
                      \<and> set (this # cs) \<inter> set (other # bs) = {})
             \<and> (case PushFront alloc s1 this v of
                   Return u s2 \<Rightarrow>
                     items s2 this = Some (Some (v # vals s bs))
                     \<and> items s2 other = Some (Some (vals s bs))
                     \<and> GetSize s2 other = GetSize s other
                 | Throw s2 \<Rightarrow> s2 = s1
                 | UB \<Rightarrow> False)
             \<and> (bs \<noteq> [] \<longrightarrow>
                  (case PopFront s1 this of
                     Return u s2 \<Rightarrow>
                       items s2 this = Some (Some (tl (vals s bs)))
                       \<and> items s2 other = Some (Some (vals s bs))
                       \<and> GetSize s2 other = GetSize s other
                   | Throw s2 \<Rightarrow> False
                   | UB \<Rightarrow> False))
             \<and> (case Clear s1 this of
                   Some (Return u s2) \<Rightarrow>
                     items s2 this = Some (Some [])
                     \<and> items s2 other = Some (Some (vals s bs))
                     \<and> GetSize s2 other = GetSize s other
                 | Some (Throw s2) \<Rightarrow> False
                 | Some UB \<Rightarrow> False
                 | None \<Rightarrow> False)
         | Some (Throw s1) \<Rightarrow> s1 = s
         | Some UB \<Rightarrow> False"
proof (cases "SingleLinkedList_copy alloc T0 tmp s this other")
  case None
  with SingleLinkedList_copy_list [OF assms, of T0] show ?thesis by simp
next
  case (Some o1)
  show ?thesis
  proof (cases o1)
    case UB
    with SingleLinkedList_copy_list [OF assms, of T0] Some show ?thesis by simp
  next
    case (Throw s1)
    with SingleLinkedList_copy_list [OF assms, of T0] Some show ?thesis by simp
  next
    case (Return u s1)
    with SingleLinkedList_copy_list [OF assms, of T0] Some obtain cs where
      c: "constructed s s1 this cs (vals s bs)" and dj: "set (this # cs) \<inter> set (other # bs) = {}"
      by auto
    from c have l1: "list_at s1 this cs" and vs: "vals s1 cs = vals s bs"
      and f1: "\<forall>x. x \<notin> set (this # cs) \<longrightarrow> nodes s1 x = nodes s x"
      and m1: "\<forall>x. x \<noteq> this \<longrightarrow> sizes s1 x = sizes s x"
      by (simp_all add: constructed_def)
    have ot: "other \<noteq> this"
      using dj by auto
    have k1: "list_at s1 other bs \<and> items s1 other = Some (Some (vals s bs))
         \<and> GetSize s1 other = GetSize s other"
      by (rule other_list_kept [OF assms(5)]) (use f1 m1 dj ot in auto)
    have "list_at s1 other bs \<and> vals s1 bs = vals s bs"
      by (rule list_at_frame [OF assms(5)]) (use f1 m1 dj ot in auto)
    then have lo: "list_at s1 other bs" and vo: "vals s1 bs = vals s bs"
      by simp_all
    have it1: "items s1 this = Some (Some (vals s bs))"
      using items_list [OF l1] vs by simp
    have len: "length cs = length bs"
      using arg_cong [OF vs, of length] by (simp add: vals_def)
    from assms(5) obtain m where m: "sizes s other = Some m" "unat m = length bs"
      by (rule list_at_size)
    from l1 obtain m' where m': "sizes s1 this = Some m'" "unat m' = length cs"
      by (rule list_at_size)
    have gs: "GetSize s1 this = GetSize s other"
      using m m' len by (simp add: GetSize_def word_unat_eq_iff)
    have ex: "\<exists>cs. list_at s1 this cs \<and> list_at s1 other bs
                      \<and> set (this # cs) \<inter> set (other # bs) = {}"
      using l1 lo dj by blast
    have live: "\<And>x. x \<in> set (other # bs) \<Longrightarrow> nodes s1 x \<noteq> None"
      using list_at_live [OF lo] by blast
    have keep: "items s2 other = Some (Some (vals s bs)) \<and> GetSize s2 other = GetSize s other"
      if "\<And>x. x \<in> set (other # bs) \<Longrightarrow> nodes s2 x = nodes s1 x"
        and "sizes s2 other = sizes s1 other" for s2
      using other_list_kept [OF lo that] k1 vo by simp
    have push: "case PushFront alloc s1 this v of
                   Return u s2 \<Rightarrow>
                     items s2 this = Some (Some (v # vals s bs))
                     \<and> items s2 other = Some (Some (vals s bs))
                     \<and> GetSize s2 other = GetSize s other
                 | Throw s2 \<Rightarrow> s2 = s1
                 | UB \<Rightarrow> False"
    proof (cases "alloc s1")
      case None
      with PushFront_list [OF assms(1) l1, of v] show ?thesis
        by (auto split: outcome.splits)
    next
      case (Some a)
      from assms(1) Some have a: "nodes s1 a = None"
        by (auto simp: valid_alloc_def)
      from InsertAfter_index [OF assms(1) l1 _ Some, of 0 v] obtain s2 where
        s2: "InsertAfter alloc s1 this \<lparr>node = this\<rparr> v = Return \<lparr>node = a\<rparr> s2"
          "list_at s2 this (a # cs)" "vals s2 (a # cs) = v # vals s1 cs"
          "\<forall>x. x \<noteq> a \<and> x \<noteq> this \<longrightarrow> nodes s2 x = nodes s1 x"
          "sizes s2 = (sizes s1)(this \<mapsto> the (sizes s1 this) + 1)"
        by auto
      have an: "a \<notin> set (other # bs)"
        using live a by blast
      have "items s2 this = Some (Some (v # vals s bs))"
        using items_list [OF s2(2)] s2(3) vs by simp
      moreover have "items s2 other = Some (Some (vals s bs)) \<and> GetSize s2 other = GetSize s other"
        by (rule keep) (use s2(4,5) an dj ot in auto)
      ultimately show ?thesis
        using s2(1) by (simp add: PushFront_InsertAfter before_begin_def)
    qed
    have pop: "case PopFront s1 this of
                     Return u s2 \<Rightarrow>
                       items s2 this = Some (Some (tl (vals s bs)))
                       \<and> items s2 other = Some (Some (vals s bs))
                       \<and> GetSize s2 other = GetSize s other
                   | Throw s2 \<Rightarrow> False
                   | UB \<Rightarrow> False" if ne: "bs \<noteq> []"
    proof -
      have i: "0 < length cs"
        using ne len by simp
      from EraseAfter_index [OF l1 i] obtain s2 where
        s2: "EraseAfter s1 this \<lparr>node = this\<rparr> =
              Return \<lparr>node = (if Suc 0 < length cs then cs ! Suc 0 else 0)\<rparr> s2"
          "list_at s2 this (drop (Suc 0) cs)"
          "vals s2 (drop (Suc 0) cs) = drop (Suc 0) (vals s1 cs)"
          "\<forall>x. x \<noteq> cs ! 0 \<and> x \<noteq> this \<longrightarrow> nodes s2 x = nodes s1 x"
          "sizes s2 = (sizes s1)(this \<mapsto> the (sizes s1 this) - 1)"
        by auto
      have "cs ! 0 \<in> set cs"
        using i by simp
      with dj have c0: "cs ! 0 \<notin> set (other # bs)"
        by auto
      have "items s2 this = Some (Some (tl (vals s bs)))"
        using items_list [OF s2(2)] s2(3) vs by (simp add: drop_Suc)
      moreover have "nodes s2 x = nodes s1 x" if "x \<in> set (other # bs)" for x
      proof -
        from that c0 have "x \<noteq> cs ! 0" by auto
        moreover from that dj have "x \<noteq> this" by auto
        ultimately show ?thesis using s2(4) by simp
      qed
      then have "items s2 other = Some (Some (vals s bs)) \<and> GetSize s2 other = GetSize s other"
        by (rule keep) (use s2(5) ot in auto)
      ultimately show ?thesis
        using s2(1) by (simp add: PopFront_def before_begin_def)
    qed
    have clr: "case Clear s1 this of
                   Some (Return u s2) \<Rightarrow>
                     items s2 this = Some (Some [])
                     \<and> items s2 other = Some (Some (vals s bs))
                     \<and> GetSize s2 other = GetSize s other
                 | Some (Throw s2) \<Rightarrow> False
                 | Some UB \<Rightarrow> False
                 | None \<Rightarrow> False"
    proof -
      from Clear_list [OF l1] obtain s2 where
        s2: "Clear s1 this = Some (Return () s2)" "list_at s2 this []"
          "\<forall>x. x \<notin> set (this # cs) \<longrightarrow> nodes s2 x = nodes s1 x"
          "sizes s2 = (sizes s1)(this \<mapsto> 0)"
        by blast
      have "items s2 this = Some (Some [])"
        using items_list [OF s2(2)] by simp
      moreover have "items s2 other = Some (Some (vals s bs)) \<and> GetSize s2 other = GetSize s other"
        by (rule keep) (use s2(3,4) dj ot in auto)
      ultimately show ?thesis
        using s2(1) by simp
    qed
    show ?thesis
      using Some Return it1 gs k1 ex push pop clr by simp
  qed
qed


theorem copy_is_independent_witness:
  "valid_alloc (first_fit 20 :: int allocator)
   \<and> vacant list_123 10 \<and> vacant list_123 11 \<and> list_at list_123 1 [2, 3, 4]
   \<and> (case SingleLinkedList_copy (first_fit 20) 0 11 list_123 10 1 of
         Some (Return u s1) \<Rightarrow>
           items s1 10 = Some (Some [1, 2, 3]) \<and> GetSize s1 10 = Some 3
           \<and> (case PushFront (first_fit 20) s1 10 0 of
                 Return u s2 \<Rightarrow>
                   items s2 10 = Some (Some [0, 1, 2, 3])
                   \<and> items s2 1 = Some (Some [1, 2, 3]) \<and> GetSize s2 1 = Some 3
               | Throw s2 \<Rightarrow> False
               | UB \<Rightarrow> False)
           \<and> (case Clear s1 10 of
                 Some (Return u s2) \<Rightarrow>
                   items s2 10 = Some (Some [])
                   \<and> items s2 1 = Some (Some [1, 2, 3]) \<and> GetSize s2 1 = Some 3
               | _ \<Rightarrow> False)
       | _ \<Rightarrow> False)"
proof -
  have va: "valid_alloc (first_fit 20 :: int allocator)"
    by (rule valid_alloc_first_fit)
  have vc: "vacant list_123 10" "vacant list_123 11"
    by (simp_all add: vacant_def list_123_def)
  have l: "list_at list_123 1 [2, 3, 4]"
    by (simp add: list_at_def list_123_def)
  have ne: "(10::addr) \<noteq> 11"
    by simp
  define s1 :: "int state" where
    "s1 = \<lparr>nodes = Map.empty(1 \<mapsto> \<lparr>val = 0, next_node = 2\<rparr>, 2 \<mapsto> \<lparr>val = 1, next_node = 3\<rparr>,
                  3 \<mapsto> \<lparr>val = 2, next_node = 4\<rparr>, 4 \<mapsto> \<lparr>val = 3, next_node = 0\<rparr>,
                  10 \<mapsto> \<lparr>val = 0, next_node = 5\<rparr>, 5 \<mapsto> \<lparr>val = 1, next_node = 6\<rparr>,
                  6 \<mapsto> \<lparr>val = 2, next_node = 7\<rparr>, 7 \<mapsto> \<lparr>val = 3, next_node = 0\<rparr>),
            sizes = Map.empty(1 \<mapsto> 3, 10 \<mapsto> 3)\<rparr>"
  have ev: "SingleLinkedList_copy (first_fit 20) 0 11 list_123 10 1 = Some (Return () s1)"
    by (simp add: ctor_defs run_defs list_123_def s1_def fun_eq_iff)
  have p: "\<exists>s2. PushFront (first_fit 20) s1 10 0 = Return () s2"
    by (simp add: run_defs s1_def)
  have vs: "vals list_123 [2, 3, 4] = [1, 2, 3]"
    by (simp add: list_123_def)
  have sz: "sizes list_123 1 = Some 3"
    by (simp add: list_123_def)
  have "case Some (Return () s1) of
         Some (Return u s1) \<Rightarrow>
           items s1 10 = Some (Some [1, 2, 3]) \<and> GetSize s1 10 = Some 3
           \<and> (case PushFront (first_fit 20) s1 10 0 of
                 Return u s2 \<Rightarrow>
                   items s2 10 = Some (Some [0, 1, 2, 3])
                   \<and> items s2 1 = Some (Some [1, 2, 3]) \<and> GetSize s2 1 = Some 3
               | Throw s2 \<Rightarrow> False
               | UB \<Rightarrow> False)
           \<and> (case Clear s1 10 of
                 Some (Return u s2) \<Rightarrow>
                   items s2 10 = Some (Some [])
                   \<and> items s2 1 = Some (Some [1, 2, 3]) \<and> GetSize s2 1 = Some 3
               | _ \<Rightarrow> False)
       | _ \<Rightarrow> False"
    using copy_is_independent [OF va vc ne l, of 0 0] p
    unfolding ev
    by (auto simp: vs sz GetSize_def simp del: vals_Cons split: option.splits outcome.splits)
  then show ?thesis
    using va vc l unfolding ev by simp
qed

section \<open>PushFront\<close>

text \<open>
  Claim C8. Start from an empty list and call \<open>PushFront\<close> with \<open>v1, ..., vn\<close> in this
  order. The behaviour is defined. When the sequence of calls returns, reading the list
  from \<open>begin()\<close> to \<open>end()\<close> gives \<open>vn, ..., v1\<close> and \<open>GetSize()\<close> is \<open>n\<close>. The only
  other outcome is the exception of a failed allocation: then the allocator has no node
  to give in the memory the exception leaves, fewer than \<open>n\<close> values were pushed, and
  the list holds the \<open>k\<close> values pushed before the failure, reversed, with \<open>GetSize()\<close>
  equal to \<open>k\<close>.
\<close>

theorem PushFront_seq_reversed:
  assumes "valid_alloc alloc" and "list_at s this []"
  shows "case PushFront_seq alloc s this vs of
           Return u s' \<Rightarrow> items s' this = Some (Some (rev vs))
                          \<and> map_option unat (GetSize s' this) = Some (length vs)
         | Throw s' \<Rightarrow> alloc s' = None
                        \<and> (\<exists>k. k < length vs \<and> items s' this = Some (Some (rev (take k vs)))
                                \<and> map_option unat (GetSize s' this) = Some k)
         | UB \<Rightarrow> False"
proof (cases "PushFront_seq alloc s this vs")
  case (Return u s')
  with PushFront_seq_list [OF assms, of vs] obtain bs where
    bs: "length bs = length vs" "list_at s' this bs" "vals s' bs = rev vs"
    by auto
  from items_list [OF bs(2)] bs show ?thesis
    using Return by (simp add: GetSize_def list_at_def)
next
  case (Throw s')
  with PushFront_seq_list [OF assms, of vs] obtain k bs where
    bs: "k < length vs" "list_at s' this bs" "vals s' bs = rev (take k vs)"
    by auto
  have "length bs = length (vals s' bs)"
    by (simp add: vals_def)
  also have "\<dots> = k"
    using bs(1,3) by simp
  finally have "map_option unat (GetSize s' this) = Some k"
    using bs(2) by (simp add: GetSize_def list_at_def)
  moreover have "items s' this = Some (Some (rev (take k vs)))"
    using items_list [OF bs(2)] bs(3) by simp
  moreover have "alloc s' = None"
    using Throw by (rule PushFront_seq_throws)
  ultimately show ?thesis
    using Throw bs(1) by auto
next
  case UB
  with PushFront_seq_list [OF assms, of vs] show ?thesis by simp
qed

theorem PushFront_seq_reversed_witness:
  "valid_alloc (first_fit 8 :: int allocator)
   \<and> valid_alloc (first_fit 3 :: int allocator)
   \<and> list_at (SingleLinkedList_default 0 empty_mem 1) 1 []
   \<and> (case PushFront_seq (first_fit 8) (SingleLinkedList_default 0 empty_mem 1) 1 [1, 2, 3] of
         Return u s' \<Rightarrow> items s' 1 = Some (Some [3, 2, 1]) \<and> GetSize s' 1 = Some 3
       | Throw s' \<Rightarrow> False
       | UB \<Rightarrow> False)
   \<and> (case PushFront_seq (first_fit 3) (SingleLinkedList_default 0 empty_mem 1) 1 [1, 2, 3] of
         Return u s' \<Rightarrow> False
       | Throw s' \<Rightarrow> first_fit 3 s' = None \<and> items s' 1 = Some (Some [2, 1])
                      \<and> GetSize s' 1 = Some 2
       | UB \<Rightarrow> False)"
proof -
  have va: "valid_alloc (first_fit 8 :: int allocator)"
    and va3: "valid_alloc (first_fit 3 :: int allocator)"
    by (rule valid_alloc_first_fit)+
  have l: "list_at (SingleLinkedList_default 0 empty_mem 1) 1 []"
    by (simp add: list_at_def SingleLinkedList_default_def empty_mem_def)
  have ev: "PushFront_seq (first_fit 8) (SingleLinkedList_default 0 empty_mem 1) 1 [1, 2, 3] =
    Return () \<lparr>nodes = Map.empty(1 \<mapsto> \<lparr>val = 0, next_node = 4\<rparr>, 2 \<mapsto> \<lparr>val = 1, next_node = 0\<rparr>,
                  3 \<mapsto> \<lparr>val = 2, next_node = 2\<rparr>, 4 \<mapsto> \<lparr>val = 3, next_node = 3\<rparr>),
               sizes = Map.empty(1 \<mapsto> 3)\<rparr>"
    by (simp add: run_defs empty_mem_def fun_eq_iff)
  have ev3: "PushFront_seq (first_fit 3) (SingleLinkedList_default 0 empty_mem 1) 1 [1, 2, 3] =
    Throw \<lparr>nodes = Map.empty(1 \<mapsto> \<lparr>val = 0, next_node = 3\<rparr>, 2 \<mapsto> \<lparr>val = 1, next_node = 0\<rparr>,
                  3 \<mapsto> \<lparr>val = 2, next_node = 2\<rparr>),
           sizes = Map.empty(1 \<mapsto> 2)\<rparr>"
    by (simp add: run_defs empty_mem_def fun_eq_iff)
  have r: "case PushFront_seq (first_fit 8) (SingleLinkedList_default 0 empty_mem 1) 1 [1, 2, 3] of
         Return u s' \<Rightarrow> items s' 1 = Some (Some [3, 2, 1]) \<and> GetSize s' 1 = Some 3
       | Throw s' \<Rightarrow> False
       | UB \<Rightarrow> False"
    using PushFront_seq_reversed [OF va l, of "[1, 2, 3]"]
    unfolding ev by (simp add: GetSize_def)
  have t: "case PushFront_seq (first_fit 3) (SingleLinkedList_default 0 empty_mem 1) 1 [1, 2, 3] of
         Return u s' \<Rightarrow> False
       | Throw s' \<Rightarrow> first_fit 3 s' = None \<and> items s' 1 = Some (Some [2, 1])
                      \<and> GetSize s' 1 = Some 2
       | UB \<Rightarrow> False"
    using PushFront_seq_reversed [OF va3 l, of "[1, 2, 3]"]
    unfolding ev3 by (auto simp: GetSize_def)
  show ?thesis
    using va va3 l r t by (intro conjI)
qed

section \<open>Ordering of lists\<close>

text \<open>
  Claim C9. For two lists of one memory, over any element type with a \<open><\<close>,
  \<open>operator<\<close> returns the lexicographic comparison of the element sequence of the left
  list with that of the right one by the \<open><\<close> of the elements; \<open>lhs <= rhs\<close> is the
  negation of \<open>rhs < lhs\<close>, \<open>lhs > rhs\<close> is \<open>rhs < lhs\<close>, and \<open>lhs >= rhs\<close> is the
  negation of \<open>lhs < rhs\<close>. All four loops end and none has undefined behaviour. Where
  two elements of which neither is smaller than the other are equal (as in every linear
  order), the comparison is the lexicographic order \<open>lexord\<close> of the relation \<open><\<close>.
\<close>

theorem comparison_lexicographic:
  fixes s :: "'a::ord state"
  assumes "list_at s lhs as" and "list_at s rhs bs"
  shows "operator_lt s lhs rhs = Some (Some (lexicographic_less (vals s as) (vals s bs)))
       \<and> operator_le s lhs rhs = Some (Some (\<not> lexicographic_less (vals s bs) (vals s as)))
       \<and> operator_gt s lhs rhs = Some (Some (lexicographic_less (vals s bs) (vals s as)))
       \<and> operator_ge s lhs rhs = Some (Some (\<not> lexicographic_less (vals s as) (vals s bs)))
       \<and> operator_le s lhs rhs = map_option (map_option Not) (operator_lt s rhs lhs)
       \<and> operator_gt s lhs rhs = operator_lt s rhs lhs
       \<and> operator_ge s lhs rhs = map_option (map_option Not) (operator_lt s lhs rhs)
       \<and> ((\<forall>x \<in> set (vals s as). \<forall>y \<in> set (vals s bs). \<not> x < y \<and> \<not> y < x \<longrightarrow> x = y) \<longrightarrow>
            operator_lt s lhs rhs
              = Some (Some ((vals s as, vals s bs) \<in> lexord {(x, y). x < y})))"
proof (intro conjI impI)
  note lt = operator_lt_list [OF assms] operator_lt_list [OF assms(2,1)]
  show "operator_lt s lhs rhs = Some (Some (lexicographic_less (vals s as) (vals s bs)))"
    by (rule lt(1))
  show "operator_le s lhs rhs = Some (Some (\<not> lexicographic_less (vals s bs) (vals s as)))"
    unfolding operator_le_def lt(2) by simp
  show "operator_gt s lhs rhs = Some (Some (lexicographic_less (vals s bs) (vals s as)))"
    unfolding operator_gt_def by (rule lt(2))
  show "operator_ge s lhs rhs = Some (Some (\<not> lexicographic_less (vals s as) (vals s bs)))"
    unfolding operator_ge_def operator_gt_def lt(1) by simp
  show "operator_le s lhs rhs = map_option (map_option Not) (operator_lt s rhs lhs)"
    by (simp only: operator_le_def)
  show "operator_gt s lhs rhs = operator_lt s rhs lhs"
    by (simp only: operator_gt_def)
  show "operator_ge s lhs rhs = map_option (map_option Not) (operator_lt s lhs rhs)"
    by (simp only: operator_ge_def operator_gt_def)
  show "operator_lt s lhs rhs = Some (Some ((vals s as, vals s bs) \<in> lexord {(x, y). x < y}))"
    if "\<forall>x \<in> set (vals s as). \<forall>y \<in> set (vals s bs). \<not> x < y \<and> \<not> y < x \<longrightarrow> x = y"
    unfolding lt(1) lexicographic_less_lexord_if [OF that] ..
qed

theorem comparison_lexicographic_witness:
  "list_at four_lists 1 [2, 3] \<and> list_at four_lists 5 [6, 7, 8]
   \<and> list_at four_lists 10 [11] \<and> list_at four_lists 12 [13, 14]
   \<and> items four_lists 1 = Some (Some [1, 2]) \<and> items four_lists 5 = Some (Some [1, 2, 3])
   \<and> items four_lists 10 = Some (Some [2]) \<and> items four_lists 12 = Some (Some [1, 9])
   \<and> operator_lt four_lists 1 5 = Some (Some True)
   \<and> operator_le four_lists 1 5 = Some (Some True)
   \<and> operator_gt four_lists 1 5 = Some (Some False)
   \<and> operator_ge four_lists 1 5 = Some (Some False)
   \<and> operator_gt four_lists 10 12 = Some (Some True)
   \<and> operator_lt four_lists 10 12 = Some (Some False)
   \<and> ([1, 2], [1, 2, 3 :: int]) \<in> lexord {(x, y). x < y}
   \<and> ([1, 9], [2 :: int]) \<in> lexord {(x, y). x < y}"
proof -
  have l: "list_at four_lists 1 [2, 3]" "list_at four_lists 5 [6, 7, 8]"
    "list_at four_lists 10 [11]" "list_at four_lists 12 [13, 14]"
    by (simp_all add: list_at_def four_lists_def)
  have vs: "vals four_lists [2, 3] = [1, 2]" "vals four_lists [6, 7, 8] = [1, 2, 3]"
    "vals four_lists [11] = [2]" "vals four_lists [13, 14] = [1, 9]"
    by (simp_all add: four_lists_def)
  have it: "items four_lists 1 = Some (Some [1, 2])" "items four_lists 5 = Some (Some [1, 2, 3])"
    "items four_lists 10 = Some (Some [2])" "items four_lists 12 = Some (Some [1, 9])"
    using l [THEN items_list] unfolding vs by simp_all
  have t1: "\<forall>x \<in> set [1, 2 :: int]. \<forall>y \<in> set [1, 2, 3 :: int]. \<not> x < y \<and> \<not> y < x \<longrightarrow> x = y"
    and t2: "\<forall>x \<in> set [1, 9 :: int]. \<forall>y \<in> set [2 :: int]. \<not> x < y \<and> \<not> y < x \<longrightarrow> x = y"
    by auto
  note c1 = comparison_lexicographic [OF l(1) l(2), unfolded vs]
  note c2 = comparison_lexicographic [OF l(4) l(3), unfolded vs]
  have a: "operator_lt four_lists 1 5 = Some (Some True)"
    "operator_le four_lists 1 5 = Some (Some True)"
    "operator_gt four_lists 1 5 = Some (Some False)"
    "operator_ge four_lists 1 5 = Some (Some False)"
    using c1 [THEN conjunct1] c1 [THEN conjunct2, THEN conjunct1]
      c1 [THEN conjunct2, THEN conjunct2, THEN conjunct1]
      c1 [THEN conjunct2, THEN conjunct2, THEN conjunct2, THEN conjunct1]
    by simp_all
  have b: "operator_gt four_lists 10 12 = Some (Some True)"
    "operator_lt four_lists 10 12 = Some (Some False)"
    using c2 [THEN conjunct1] c2 [THEN conjunct2, THEN conjunct2, THEN conjunct1]
    by (simp_all add: operator_gt_def)
  have "Some (Some True) = Some (Some (([1, 2], [1, 2, 3 :: int]) \<in> lexord {(x, y). x < y}))"
    using c1 [THEN conjunct2, THEN conjunct2, THEN conjunct2, THEN conjunct2, THEN conjunct2,
      THEN conjunct2, THEN conjunct2, THEN mp, OF t1]
    unfolding a(1) .
  then have x1: "([1, 2], [1, 2, 3 :: int]) \<in> lexord {(x, y). x < y}"
    by (simp only: option.inject simp_thms)
  have "Some (Some True) = Some (Some (([1, 9], [2 :: int]) \<in> lexord {(x, y). x < y}))"
    using c2 [THEN conjunct2, THEN conjunct2, THEN conjunct2, THEN conjunct2, THEN conjunct2,
      THEN conjunct2, THEN conjunct2, THEN mp, OF t2]
    unfolding b(1) [unfolded operator_gt_def] .
  then have x2: "([1, 9], [2 :: int]) \<in> lexord {(x, y). x < y}"
    by (simp only: option.inject simp_thms)
  show ?thesis
    using l it a b x1 x2 by (intro conjI)
qed

section \<open>InsertAfter followed by EraseAfter\<close>

text \<open>
  Claim C10. Let \<open>pos\<close> reference the sentinel or a real node of the list at \<open>this\<close>.
  When \<open>InsertAfter(pos, v)\<close> returns, \<open>EraseAfter(pos)\<close> returns too, and the memory is
  exactly what it was before the insertion: the list has its original nodes, its original
  element sequence and its original size. (When the allocation fails, \<open>InsertAfter\<close>
  throws and the memory is unchanged as well.)
\<close>

theorem InsertAfter_EraseAfter_roundtrip:
  assumes "valid_alloc alloc" and "list_at s this as" and "i \<le> length as"
    and "pos = \<lparr>node = (this # as) ! i\<rparr>"
  shows "case InsertAfter alloc s this pos v of
           Return it s' \<Rightarrow>
             (case EraseAfter s' this pos of
                Return it' s'' \<Rightarrow>
                  s'' = s \<and> list_at s'' this as
                  \<and> items s'' this = Some (Some (vals s as))
                  \<and> items s'' this = items s this
                  \<and> GetSize s'' this = GetSize s this
              | Throw s'' \<Rightarrow> False
              | UB \<Rightarrow> False)
         | Throw s' \<Rightarrow> alloc s = None \<and> s' = s
         | UB \<Rightarrow> False"
proof -
  define p where "p = (this # as) ! i"
  have pin: "p \<in> set (this # as)"
    unfolding p_def using assms(3) by (intro nth_mem) simp
  from list_at_live [OF assms(2) pin] obtain n where n: "p \<noteq> 0" "nodes s p = Some n"
    by auto
  from assms(2) obtain m where m: "sizes s this = Some m"
    by (rule list_at_size)
  note ins = InsertAfter_eval [OF n m, of alloc v]
  show ?thesis
  proof (cases "alloc s")
    case None
    with ins show ?thesis
      by (simp add: assms(4) p_def [symmetric])
  next
    case (Some a)
    from assms(1) Some have a: "a \<noteq> 0" "nodes s a = None"
      by (auto simp: valid_alloc_def)
    have ap: "a \<noteq> p"
      using a n by auto
    define s' where "s' = s\<lparr>nodes := (nodes s)(a \<mapsto> \<lparr>val = v, next_node = next_node n\<rparr>,
                                 p \<mapsto> n\<lparr>next_node := a\<rparr>),
              sizes := (sizes s)(this \<mapsto> m + 1)\<rparr>"
    have i1: "InsertAfter alloc s this \<lparr>node = p\<rparr> v = Return \<lparr>node = a\<rparr> s'"
      using ins Some ap by (simp add: s'_def)
    have e1: "EraseAfter s' this \<lparr>node = p\<rparr> =
       Return \<lparr>node = next_node n\<rparr>
        (s'\<lparr>nodes := ((nodes s')(p \<mapsto> (n\<lparr>next_node := a\<rparr>)\<lparr>next_node := next_node n\<rparr>))(a := None),
           sizes := (sizes s')(this \<mapsto> (m + 1) - 1)\<rparr>)"
      using EraseAfter_eval [of p s' "n\<lparr>next_node := a\<rparr>" "\<lparr>val = v, next_node = next_node n\<rparr>"
          this "m + 1"] a ap n
      by (simp add: s'_def)
    have nd: "((nodes s')(p \<mapsto> (n\<lparr>next_node := a\<rparr>)\<lparr>next_node := next_node n\<rparr>))(a := None) = nodes s"
      using a n ap by (auto simp: s'_def fun_eq_iff)
    have sz: "(sizes s')(this \<mapsto> (m + 1) - 1) = sizes s"
      using m by (auto simp: s'_def fun_eq_iff)
    have restored: "s'\<lparr>nodes := ((nodes s')(p \<mapsto> (n\<lparr>next_node := a\<rparr>)\<lparr>next_node := next_node n\<rparr>))(a := None),
           sizes := (sizes s')(this \<mapsto> (m + 1) - 1)\<rparr> = s"
      unfolding nd sz by (simp add: s'_def)
    have e2: "EraseAfter s' this \<lparr>node = p\<rparr> = Return \<lparr>node = next_node n\<rparr> s"
      using e1 unfolding restored .
    show ?thesis
      using assms(2) items_list [OF assms(2)]
      by (simp add: assms(4) p_def [symmetric] i1 e2)
  qed
qed

theorem InsertAfter_EraseAfter_roundtrip_witness:
  "valid_alloc (first_fit 8 :: int allocator) \<and> list_at list_123 1 [2, 3, 4]
   \<and> (case InsertAfter (first_fit 8) list_123 1 \<lparr>node = 3\<rparr> 7 of
         Return it s' \<Rightarrow>
           items s' 1 = Some (Some [1, 2, 7, 3]) \<and> GetSize s' 1 = Some 4
           \<and> (case EraseAfter s' 1 \<lparr>node = 3\<rparr> of
                 Return it' s'' \<Rightarrow> s'' = list_123 \<and> items s'' 1 = Some (Some [1, 2, 3])
                   \<and> GetSize s'' 1 = Some 3
               | Throw s'' \<Rightarrow> False
               | UB \<Rightarrow> False)
       | Throw s' \<Rightarrow> False
       | UB \<Rightarrow> False)"
proof -
  have va: "valid_alloc (first_fit 8 :: int allocator)"
    by (rule valid_alloc_first_fit)
  have l: "list_at list_123 1 [2, 3, 4]"
    by (simp add: list_at_def list_123_def)
  have pos: "\<lparr>node = 3\<rparr> = \<lparr>node = ((1::addr) # [2, 3, 4]) ! 2\<rparr>"
    by simp
  define s1 :: "int state" where
    "s1 = \<lparr>nodes = Map.empty(1 \<mapsto> \<lparr>val = 0, next_node = 2\<rparr>, 2 \<mapsto> \<lparr>val = 1, next_node = 3\<rparr>,
                  3 \<mapsto> \<lparr>val = 2, next_node = 5\<rparr>, 4 \<mapsto> \<lparr>val = 3, next_node = 0\<rparr>,
                  5 \<mapsto> \<lparr>val = 7, next_node = 4\<rparr>),
               sizes = Map.empty(1 \<mapsto> 4)\<rparr>"
  have ev: "InsertAfter (first_fit 8) list_123 1 \<lparr>node = 3\<rparr> 7 = Return \<lparr>node = 5\<rparr> s1"
    by (simp add: run_defs list_123_def s1_def fun_eq_iff)
  have l1: "list_at s1 1 [2, 3, 5, 4]"
    by (simp add: list_at_def s1_def)
  have it1: "items s1 1 = Some (Some [1, 2, 7, 3])"
    using items_list [OF l1] by (simp add: s1_def)
  have vs: "vals list_123 [2, 3, 4] = [1, 2, 3]"
    by (simp add: list_123_def)
  have sz: "GetSize s1 1 = Some 4" "GetSize list_123 1 = Some 3"
    by (simp_all add: GetSize_def s1_def list_123_def)
  show ?thesis
    using InsertAfter_EraseAfter_roundtrip [OF va l _ pos, of 7] va l
    unfolding ev by (simp add: it1 sz vs split: outcome.splits del: vals_Cons)
qed

end
